theory Spec2Isabelle
  imports
    Main
    "HOL-Library.Word"
    "HOL-Library.Multiset"
    "HOL-Library.Char_ord"
    "HOL-Library.List_Lexorder"
    "HOL-Library.Signed_Division"
begin

section \<open>Dedupe: the data the program works on\<close>

text \<open>
  The program is one Go file, \<^verbatim>\<open>dedupe.go\<close>: \<^verbatim>\<open>main\<close> and \<^verbatim>\<open>fileHash\<close>.
  Paths and digests are Go strings (byte sequences), file sizes are \<^verbatim>\<open>int64\<close>,
  modification times are instants compared with \<^verbatim>\<open>Before\<close>.
  The counters \<^verbatim>\<open>totalFiles\<close>, \<^verbatim>\<open>duplicateCount\<close> and \<^verbatim>\<open>potentialDuplicates\<close> are Go
  \<^verbatim>\<open>int\<close>s that count elements of slices held in memory, so they cannot wrap; they are
  natural numbers here. \<^verbatim>\<open>totalSaved\<close> is an \<^verbatim>\<open>int64\<close> sum of file sizes and keeps its
  wrap-around.
\<close>

type_synonym path = string
type_synonym int64 = "64 word"

datatype error = ENOENT | EACCES

text \<open>
  A file of the file system: its bytes, its modification time, whether it can be opened
  and read (\<^verbatim>\<open>os.Open\<close>, \<^verbatim>\<open>io.Copy\<close>) and whether \<^verbatim>\<open>os.Remove\<close> may delete it.
\<close>

record regfile =
  content :: string
  modTime :: int
  readable :: bool
  removable :: bool

type_synonym filesystem = "path \<rightharpoonup> regfile"

text \<open>What the program reads of an \<^verbatim>\<open>os.FileInfo\<close>.\<close>

record FileInfo =
  IsDir :: bool
  ModeSymlink :: bool
  Size :: int64
  ModTime :: int

text \<open>The command-line flags.\<close>

record flags =
  partitions :: string
  dryRun :: bool
  confirm :: bool
  verbose :: bool

text \<open>
  Everything the run does to the outside, in program order: the lines of \<^verbatim>\<open>log\<close>, the
  lines of \<^verbatim>\<open>fmt.Printf\<close> (one constructor per call site, with its arguments), and the
  calls of \<^verbatim>\<open>fileHash\<close> and \<^verbatim>\<open>os.Remove\<close>.
\<close>

datatype event =
    LogFatal
  | LogScanning string
  | LogErrAccess path error
  | LogErrWalk string error
  | LogScanned nat
  | LogPotential nat
  | LogProcessing nat int64
  | CallFileHash path
  | LogErrHash path error
  | PrintGroup string
  | PrintKeeper path
  | PrintDuplicate path
  | PrintPrompt path
  | CallRemove path
  | LogErrDelete path error
  | PrintDeleted path
  | PrintSummary nat nat int
  | PrintDryRunBanner

text \<open>
  The library and the platform, as parameters of the run:
  \<^item> \<open>SplitList\<close> is \<^verbatim>\<open>filepath.SplitList\<close>;
  \<^item> \<open>Walk root\<close> is what \<^verbatim>\<open>filepath.Walk(root, fn)\<close> does with a callback that always
    returns nil: the calls \<^verbatim>\<open>fn(path, info, err)\<close> it makes, in order, and the error it
    returns;
  \<^item> \<open>VolumeName\<close> is \<^verbatim>\<open>filepath.VolumeName\<close>;
  \<^item> \<open>sha256hex\<close> is the SHA-256 digest of a byte sequence, printed with \<^verbatim>\<open>%x\<close>;
  \<^item> \<open>sort_Slice less xs\<close> is \<^verbatim>\<open>sort.Slice(xs, less)\<close>: the slice afterwards, or
    \<open>None\<close> when a call of \<open>less\<close> panicked. The comparison is given on the two
    elements \<^verbatim>\<open>xs[i]\<close> and \<^verbatim>\<open>xs[j]\<close>; the library's algorithm draws on nothing but the
    slice and the comparison, so it is a function of the two;
  \<^item> \<open>rangeSizes\<close> and \<open>rangeHashes\<close> give the order in which a \<^verbatim>\<open>range\<close> over a map
    visits its keys, which Go leaves unspecified.
\<close>

record env =
  SplitList :: "string \<Rightarrow> string list"
  Walk :: "string \<Rightarrow> (path \<times> (error + FileInfo)) list \<times> error option"
  VolumeName :: "path \<Rightarrow> string"
  sha256hex :: "string \<Rightarrow> string"
  sort_Slice :: "(path \<Rightarrow> path \<Rightarrow> bool option) \<Rightarrow> path list \<Rightarrow> path list option"
  rangeSizes :: "int64 list \<Rightarrow> int64 list"
  rangeHashes :: "string list \<Rightarrow> string list"

text \<open>
  The state of the deletion stage: the file system, the responses still waiting on
  standard input, the events so far, the two counters, and whether the run has
  panicked (a nil \<^verbatim>\<open>FileInfo\<close> dereferenced, an index out of range).
\<close>

record state =
  fs :: filesystem
  stdin :: "string list"
  trace :: "event list"
  duplicateCount :: nat
  totalSaved :: int64
  panicked :: bool

datatype exit_status = Exit0 | Exit1 | Exit2

record outcome =
  final_fs :: filesystem
  events :: "event list"
  exit :: exit_status

section \<open>Operating system calls\<close>

definition Stat :: "filesystem \<Rightarrow> path \<Rightarrow> error + FileInfo" where
  "Stat fsys p =
     (case fsys p of
        None \<Rightarrow> Inl ENOENT
      | Some f \<Rightarrow> Inr \<lparr>IsDir = False, ModeSymlink = False,
                       Size = of_nat (length (content f)), ModTime = modTime f\<rparr>)"

definition Remove :: "filesystem \<Rightarrow> path \<Rightarrow> filesystem \<times> error option" where
  "Remove fsys p =
     (case fsys p of
        None \<Rightarrow> (fsys, Some ENOENT)
      | Some f \<Rightarrow> if removable f then (fsys(p := None), None) else (fsys, Some EACCES))"

text \<open>
  \<^verbatim>\<open>fmt.Scanln(&response)\<close>: each element of \<open>stdin\<close> is what one call stores into
  \<^verbatim>\<open>response\<close>; at the end of the input the call fails and \<^verbatim>\<open>response\<close> stays empty.
\<close>

definition Scanln :: "state \<Rightarrow> string \<times> state" where
  "Scanln s = (case stdin s of [] \<Rightarrow> ([], s) | r # rs \<Rightarrow> (r, s\<lparr>stdin := rs\<rparr>))"

definition emit :: "event \<Rightarrow> state \<Rightarrow> state" where
  "emit ev s = s\<lparr>trace := trace s @ [ev]\<rparr>"

section \<open>Go maps from a key to a slice\<close>

text \<open>
  \<^verbatim>\<open>m[k] = append(m[k], v)\<close> on a \<^verbatim>\<open>map[K][]string\<close>, kept as an association list with
  one entry per key.
\<close>

fun map_append :: "'k \<Rightarrow> 'v \<Rightarrow> ('k \<times> 'v list) list \<Rightarrow> ('k \<times> 'v list) list" where
  "map_append k v [] = [(k, [v])]"
| "map_append k v ((k', vs) # m) =
     (if k = k' then (k', vs @ [v]) # m else (k', vs) # map_append k v m)"

text \<open>\<^verbatim>\<open>for k, v := range m\<close>: the entries of the map in the order the run meets them.\<close>

definition range_map :: "('k list \<Rightarrow> 'k list) \<Rightarrow> ('k \<times> 'v) list \<Rightarrow> ('k \<times> 'v) list" where
  "range_map order m =
     List.map_filter (\<lambda>k. map_option (Pair k) (map_of m k)) (order (map fst m))"

section \<open>The scan (lines 28 to 58)\<close>

fun walkFn ::
  "(int64 \<times> path list) list \<times> event list \<Rightarrow> path \<times> (error + FileInfo) \<Rightarrow>
   (int64 \<times> path list) list \<times> event list" where
  "walkFn (sizeMap, tr) (p, Inl err) = (sizeMap, tr @ [LogErrAccess p err])"
| "walkFn (sizeMap, tr) (p, Inr info) =
     (if IsDir info then (sizeMap, tr)
      else if ModeSymlink info then (sizeMap, tr)
      else if Size info = 0 then (sizeMap, tr)
      else (map_append (Size info) p sizeMap, tr))"

fun scan_partition ::
  "env \<Rightarrow> flags \<Rightarrow> (int64 \<times> path list) list \<times> event list \<Rightarrow> string \<Rightarrow>
   (int64 \<times> path list) list \<times> event list" where
  "scan_partition e fl (sizeMap, tr) root =
     (let tr1 = (if verbose fl then tr @ [LogScanning root] else tr);
          (sizeMap', tr2) = foldl walkFn (sizeMap, tr1) (fst (Walk e root))
      in case snd (Walk e root) of
           None \<Rightarrow> (sizeMap', tr2)
         | Some err \<Rightarrow> (sizeMap', tr2 @ [LogErrWalk root err]))"

definition scan :: "env \<Rightarrow> flags \<Rightarrow> (int64 \<times> path list) list \<times> event list" where
  "scan e fl = foldl (scan_partition e fl) ([], []) (SplitList e (partitions fl))"

section \<open>Hashing (lines 64 to 99 and 167 to 179)\<close>

definition fileHash :: "env \<Rightarrow> filesystem \<Rightarrow> path \<Rightarrow> error + string" where
  "fileHash e fsys p =
     (case fsys p of
        None \<Rightarrow> Inl ENOENT
      | Some f \<Rightarrow> if readable f then Inr (sha256hex e (content f)) else Inl EACCES)"

text \<open>
  The count of lines 65 to 70 is a sum over the buckets, so the order in which the
  \<^verbatim>\<open>range\<close> visits them does not show in it.
\<close>

definition potentialDuplicates :: "(int64 \<times> path list) list \<Rightarrow> nat" where
  "potentialDuplicates sizeMap =
     sum_list (map (\<lambda>(sz, files). if length files > 1 then length files - 1 else 0) sizeMap)"

fun hash_file ::
  "env \<Rightarrow> filesystem \<Rightarrow> (string \<times> path list) list \<times> nat \<times> event list \<Rightarrow> path \<Rightarrow>
   (string \<times> path list) list \<times> nat \<times> event list" where
  "hash_file e fsys (hashMap, totalFiles, tr) p =
     (case fileHash e fsys p of
        Inl err \<Rightarrow> (hashMap, totalFiles, tr @ [CallFileHash p, LogErrHash p err])
      | Inr h \<Rightarrow> (map_append h p hashMap, Suc totalFiles, tr @ [CallFileHash p]))"

fun hash_bucket ::
  "env \<Rightarrow> flags \<Rightarrow> filesystem \<Rightarrow> (string \<times> path list) list \<times> nat \<times> event list \<Rightarrow>
   int64 \<times> path list \<Rightarrow> (string \<times> path list) list \<times> nat \<times> event list" where
  "hash_bucket e fl fsys (hashMap, totalFiles, tr) (sz, files) =
     (if length files < 2 then (hashMap, totalFiles, tr)
      else foldl (hash_file e fsys)
             (hashMap, totalFiles,
              if verbose fl then tr @ [LogProcessing (length files) sz] else tr)
             files)"

definition hash_all ::
  "env \<Rightarrow> flags \<Rightarrow> filesystem \<Rightarrow> (int64 \<times> path list) list \<Rightarrow> event list \<Rightarrow>
   (string \<times> path list) list \<times> nat \<times> event list" where
  "hash_all e fl fsys sizeMap tr =
     foldl (hash_bucket e fl fsys) ([], 0, tr) (range_map (rangeSizes e) sizeMap)"

section \<open>Ordering a group and deleting its duplicates (lines 101 to 155)\<close>

text \<open>
  The closure handed to \<^verbatim>\<open>sort.Slice\<close>, on the two paths \<^verbatim>\<open>files[i]\<close> and \<^verbatim>\<open>files[j]\<close>.
  Both \<^verbatim>\<open>os.Stat\<close> errors are dropped; a nil \<^verbatim>\<open>FileInfo\<close> is dereferenced only when the
  two volume names are equal, and that panics.
\<close>

definition lessFunc :: "env \<Rightarrow> filesystem \<Rightarrow> path \<Rightarrow> path \<Rightarrow> bool option" where
  "lessFunc e fsys pI pJ =
     (let infoI = Stat fsys pI;
          infoJ = Stat fsys pJ;
          partitionI = VolumeName e pI;
          partitionJ = VolumeName e pJ
      in if partitionI \<noteq> partitionJ then Some (partitionI < partitionJ)
         else (case infoI of
                 Inl _ \<Rightarrow> None
               | Inr a \<Rightarrow> (case infoJ of
                             Inl _ \<Rightarrow> None
                           | Inr b \<Rightarrow> Some (ModTime a < ModTime b))))"

definition remove_duplicate :: "path \<Rightarrow> state \<Rightarrow> state" where
  "remove_duplicate dup s =
     (let s1 = emit (CallRemove dup) s
      in case snd (Remove (fs s1) dup) of
           Some err \<Rightarrow> emit (LogErrDelete dup err) (s1\<lparr>fs := fst (Remove (fs s1) dup)\<rparr>)
         | None \<Rightarrow> emit (PrintDeleted dup) (s1\<lparr>fs := fst (Remove (fs s1) dup)\<rparr>))"

text \<open>The body of the loop over the duplicates of a group (lines 131 to 153).\<close>

definition process_duplicate :: "flags \<Rightarrow> path \<Rightarrow> state \<Rightarrow> state" where
  "process_duplicate fl dup s =
     (let s1 = s\<lparr>duplicateCount := Suc (duplicateCount s)\<rparr>
      in case Stat (fs s1) dup of
           Inl _ \<Rightarrow> s1\<lparr>panicked := True\<rparr>
         | Inr info \<Rightarrow>
             (let s2 = emit (PrintDuplicate dup) (s1\<lparr>totalSaved := totalSaved s1 + Size info\<rparr>)
              in if dryRun fl then s2
                 else if confirm fl then
                   (let s3 = emit (PrintPrompt dup) s2;
                        response = fst (Scanln s3);
                        s4 = snd (Scanln s3)
                    in if response \<noteq> ''y'' \<and> response \<noteq> ''Y'' then s4
                       else remove_duplicate dup s4)
                 else remove_duplicate dup s2))"

fun process_duplicates :: "flags \<Rightarrow> path list \<Rightarrow> state \<Rightarrow> state" where
  "process_duplicates fl [] s = s"
| "process_duplicates fl (dup # dups) s =
     (let s' = process_duplicate fl dup s
      in if panicked s' then s' else process_duplicates fl dups s')"

text \<open>
  One round of the loop over the digest groups (lines 105 to 155): \<^verbatim>\<open>files[0]\<close> and
  \<^verbatim>\<open>hash[:8]\<close> panic when out of range.
\<close>

definition process_group :: "env \<Rightarrow> flags \<Rightarrow> string \<times> path list \<Rightarrow> state \<Rightarrow> state" where
  "process_group e fl g s =
     (if length (snd g) < 2 then s
      else case sort_Slice e (lessFunc e (fs s)) (snd g) of
             None \<Rightarrow> s\<lparr>panicked := True\<rparr>
           | Some [] \<Rightarrow> s\<lparr>panicked := True\<rparr>
           | Some (keeper # duplicates) \<Rightarrow>
               if length (fst g) < 8 then s\<lparr>panicked := True\<rparr>
               else process_duplicates fl duplicates
                      (emit (PrintKeeper keeper) (emit (PrintGroup (take 8 (fst g))) s)))"

fun process_groups :: "env \<Rightarrow> flags \<Rightarrow> (string \<times> path list) list \<Rightarrow> state \<Rightarrow> state" where
  "process_groups e fl [] s = s"
| "process_groups e fl (g # gs) s =
     (let s' = process_group e fl g s
      in if panicked s' then s' else process_groups e fl gs s')"

section \<open>The whole run\<close>

definition main :: "env \<Rightarrow> flags \<Rightarrow> filesystem \<Rightarrow> string list \<Rightarrow> outcome" where
  "main e fl fs0 input =
     (if partitions fl = [] then \<lparr>final_fs = fs0, events = [LogFatal], exit = Exit1\<rparr>
      else
        (let sizeMap = fst (scan e fl);
             tr1 = snd (scan e fl);
             tr2 = (if verbose fl then tr1 @ [LogScanned (length sizeMap)] else tr1);
             tr3 = (if verbose fl then tr2 @ [LogPotential (potentialDuplicates sizeMap)] else tr2);
             hashed = hash_all e fl fs0 sizeMap tr3;
             hashMap = fst hashed;
             totalFiles = fst (snd hashed);
             s = process_groups e fl (range_map (rangeHashes e) hashMap)
                   \<lparr>fs = fs0, stdin = input, trace = snd (snd hashed),
                    duplicateCount = 0, totalSaved = 0, panicked = False\<rparr>
         in if panicked s then \<lparr>final_fs = fs s, events = trace s, exit = Exit2\<rparr>
            else \<lparr>final_fs = fs s,
                  events = trace s
                    @ [PrintSummary totalFiles (duplicateCount s) (sint (totalSaved s) sdiv 1048576)]
                    @ (if dryRun fl then [PrintDryRunBanner] else []),
                  exit = Exit0\<rparr>))"

section \<open>Views of the events\<close>

text \<open>The paths handed to \<^verbatim>\<open>os.Remove\<close>, in order.\<close>

definition removals :: "event list \<Rightarrow> path list" where
  "removals tr = List.map_filter (\<lambda>ev. case ev of CallRemove p \<Rightarrow> Some p | _ \<Rightarrow> None) tr"

text \<open>The paths handed to \<^verbatim>\<open>fileHash\<close>, in order.\<close>

definition hashed :: "event list \<Rightarrow> path list" where
  "hashed tr = List.map_filter (\<lambda>ev. case ev of CallFileHash p \<Rightarrow> Some p | _ \<Rightarrow> None) tr"

text \<open>The paths printed on a \<^verbatim>\<open>Duplicate:\<close> line, a \<^verbatim>\<open>Keeper:\<close> line, a prompt.\<close>

definition reported :: "event list \<Rightarrow> path list" where
  "reported tr = List.map_filter (\<lambda>ev. case ev of PrintDuplicate p \<Rightarrow> Some p | _ \<Rightarrow> None) tr"

definition keepers :: "event list \<Rightarrow> path list" where
  "keepers tr = List.map_filter (\<lambda>ev. case ev of PrintKeeper p \<Rightarrow> Some p | _ \<Rightarrow> None) tr"

definition prompted :: "event list \<Rightarrow> path list" where
  "prompted tr = List.map_filter (\<lambda>ev. case ev of PrintPrompt p \<Rightarrow> Some p | _ \<Rightarrow> None) tr"

text \<open>The totals of files processed that the summaries print.\<close>

definition totals :: "event list \<Rightarrow> nat list" where
  "totals tr = List.map_filter (\<lambda>ev. case ev of PrintSummary tf _ _ \<Rightarrow> Some tf | _ \<Rightarrow> None) tr"

text \<open>The events of the scan alone.\<close>

fun scanning :: "event \<Rightarrow> bool" where
  "scanning (LogScanning _) = True"
| "scanning (LogErrAccess _ _) = True"
| "scanning (LogErrWalk _ _) = True"
| "scanning (LogScanned _) = True"
| "scanning (LogPotential _) = True"
| "scanning _ = False"

text \<open>
  The events of the deletion stage that name a path, for the paths a predicate admits.
\<close>

fun group_event :: "(path \<Rightarrow> bool) \<Rightarrow> event \<Rightarrow> bool" where
  "group_event P (PrintGroup _) = True"
| "group_event P (PrintKeeper p) = P p"
| "group_event P (PrintDuplicate p) = P p"
| "group_event P (PrintPrompt p) = P p"
| "group_event P (CallRemove p) = P p"
| "group_event P (LogErrDelete p _) = P p"
| "group_event P (PrintDeleted p) = P p"
| "group_event P _ = False"

text \<open>The events of the scan and of the hashing: log lines and calls of \<^verbatim>\<open>fileHash\<close>.\<close>

fun early :: "event \<Rightarrow> bool" where
  "early (LogScanning _) = True"
| "early (LogErrAccess _ _) = True"
| "early (LogErrWalk _ _) = True"
| "early (LogScanned _) = True"
| "early (LogPotential _) = True"
| "early (LogProcessing _ _) = True"
| "early (CallFileHash _) = True"
| "early (LogErrHash _ _) = True"
| "early _ = False"

section \<open>The stages of the run\<close>

text \<open>
  The digest map, the count of hashed files and the events when the hashing is done, and
  the state when the loop over the groups is done: the two halves of \<^verbatim>\<open>main\<close>.
\<close>

definition after_hashing ::
  "env \<Rightarrow> flags \<Rightarrow> filesystem \<Rightarrow> (string \<times> path list) list \<times> nat \<times> event list" where
  "after_hashing e fl fs0 =
     hash_all e fl fs0 (fst (scan e fl))
       (if verbose fl
        then snd (scan e fl) @ [LogScanned (length (fst (scan e fl))),
                                LogPotential (potentialDuplicates (fst (scan e fl)))]
        else snd (scan e fl))"

definition after_groups :: "env \<Rightarrow> flags \<Rightarrow> filesystem \<Rightarrow> string list \<Rightarrow> state" where
  "after_groups e fl fs0 input =
     process_groups e fl (range_map (rangeHashes e) (fst (after_hashing e fl fs0)))
       \<lparr>fs = fs0, stdin = input, trace = snd (snd (after_hashing e fl fs0)),
        duplicateCount = 0, totalSaved = 0, panicked = False\<rparr>"

text \<open>
  The paths of a list whose digest is \<open>h\<close>, and what holds of the digest map while the
  files are hashed: the entry of a digest lists the paths hashed to it so far, in order,
  the count is the number of successful hashes, and every failed hash is logged.
\<close>

definition digest_group :: "env \<Rightarrow> filesystem \<Rightarrow> path list \<Rightarrow> string \<Rightarrow> path list" where
  "digest_group e fsys ps h = filter (\<lambda>q. fileHash e fsys q = Inr h) ps"

definition hash_inv ::
  "env \<Rightarrow> filesystem \<Rightarrow> (string \<times> path list) list \<times> nat \<times> event list \<Rightarrow> bool" where
  "hash_inv e fsys acc \<longleftrightarrow>
     distinct (map fst (fst acc))
     \<and> (\<forall>h. map_of (fst acc) h =
          (if digest_group e fsys (hashed (snd (snd acc))) h = [] then None
           else Some (digest_group e fsys (hashed (snd (snd acc))) h)))
     \<and> fst (snd acc) = length (filter (\<lambda>q. \<not> isl (fileHash e fsys q)) (hashed (snd (snd acc))))
     \<and> (\<forall>q\<in>set (hashed (snd (snd acc))). \<forall>err. fileHash e fsys q = Inl err \<longrightarrow>
           LogErrHash q err \<in> set (snd (snd acc)))"

definition hashable :: "env \<Rightarrow> filesystem \<Rightarrow> path \<Rightarrow> bool" where
  "hashable e fsys p = (\<not> isl (fileHash e fsys p))"

section \<open>The contract of \<^verbatim>\<open>sort.Slice\<close>\<close>

text \<open>
  \<^verbatim>\<open>sort.Slice\<close> is the Go library's; the program relies on what the library documents:
  the slice is rearranged by swaps only, a panic can only come out of the comparison
  function, and the result is sorted when the comparison is a strict weak ordering. The
  library does not promise a stable sort (\<^verbatim>\<open>sort.SliceStable\<close> is the stable one).
\<close>

definition strict_weak_on :: "'a set \<Rightarrow> ('a \<Rightarrow> 'a \<Rightarrow> bool option) \<Rightarrow> bool" where
  "strict_weak_on A lt \<longleftrightarrow>
     (\<forall>x\<in>A. \<forall>y\<in>A. lt x y \<noteq> None) \<and>
     (\<forall>x\<in>A. \<forall>y\<in>A. lt x y = Some True \<longrightarrow> lt y x = Some False) \<and>
     (\<forall>x\<in>A. \<forall>y\<in>A. \<forall>z\<in>A. lt x y = Some False \<longrightarrow> lt y z = Some False \<longrightarrow> lt x z = Some False)"

definition sort_Slice_contract ::
  "(('a \<Rightarrow> 'a \<Rightarrow> bool option) \<Rightarrow> 'a list \<Rightarrow> 'a list option) \<Rightarrow> bool" where
  "sort_Slice_contract srt \<longleftrightarrow>
     (\<forall>lt xs. case srt lt xs of
        None \<Rightarrow> (\<exists>x\<in>set xs. \<exists>y\<in>set xs. lt x y = None)
      | Some ys \<Rightarrow> mset ys = mset xs \<and>
          (strict_weak_on (set xs) lt \<longrightarrow> sorted_wrt (\<lambda>a b. lt b a = Some False) ys))"

text \<open>
  Insertion sort, one sort that keeps the contract: each element moves left past the
  elements it is less than. The sorted prefix is kept reversed, its last element first.
\<close>

fun insert_back :: "('a \<Rightarrow> 'a \<Rightarrow> bool option) \<Rightarrow> 'a \<Rightarrow> 'a list \<Rightarrow> 'a list option" where
  "insert_back lt x [] = Some [x]"
| "insert_back lt x (y # rs) =
     (case lt x y of
        None \<Rightarrow> None
      | Some True \<Rightarrow> map_option ((#) y) (insert_back lt x rs)
      | Some False \<Rightarrow> Some (x # y # rs))"

fun insertion_loop ::
  "('a \<Rightarrow> 'a \<Rightarrow> bool option) \<Rightarrow> 'a list \<Rightarrow> 'a list \<Rightarrow> 'a list option" where
  "insertion_loop lt rs [] = Some (rev rs)"
| "insertion_loop lt rs (x # xs) =
     (case insert_back lt x rs of
        None \<Rightarrow> None
      | Some rs' \<Rightarrow> insertion_loop lt rs' xs)"

definition insertionSort :: "('a \<Rightarrow> 'a \<Rightarrow> bool option) \<Rightarrow> 'a list \<Rightarrow> 'a list option" where
  "insertionSort lt xs = insertion_loop lt [] xs"

section \<open>The order of a group\<close>

text \<open>
  The modification time \<^verbatim>\<open>os.Stat\<close> reports for a path, and the order the comparison
  function of \<^verbatim>\<open>main\<close> asks for: by volume name, then by modification time.
\<close>

definition mtime :: "filesystem \<Rightarrow> path \<Rightarrow> int" where
  "mtime fsys p = (case fsys p of None \<Rightarrow> 0 | Some f \<Rightarrow> modTime f)"

definition ordered_before :: "env \<Rightarrow> filesystem \<Rightarrow> path \<Rightarrow> path \<Rightarrow> bool" where
  "ordered_before e fsys p q \<longleftrightarrow>
     VolumeName e p < VolumeName e q
     \<or> (VolumeName e p = VolumeName e q \<and> mtime fsys p \<le> mtime fsys q)"

section \<open>What the deletion loop is measured against\<close>

text \<open>The size \<^verbatim>\<open>os.Stat\<close> reports for a path.\<close>

definition size_of :: "filesystem \<Rightarrow> path \<Rightarrow> int64" where
  "size_of fsys p = (case Stat fsys p of Inl _ \<Rightarrow> 0 | Inr info \<Rightarrow> Size info)"

text \<open>
  The duplicates of a group paired with what \<^verbatim>\<open>fmt.Scanln\<close> reads for each of them, one
  response per duplicate and the empty string once the input has run out; and the
  duplicates whose response is \<^verbatim>\<open>y\<close> or \<^verbatim>\<open>Y\<close>.
\<close>

fun responses :: "path list \<Rightarrow> string list \<Rightarrow> (path \<times> string) list" where
  "responses [] inp = []"
| "responses (d # ds) inp = (d, case inp of [] \<Rightarrow> [] | r # _ \<Rightarrow> r) # responses ds (tl inp)"

definition confirmed :: "path list \<Rightarrow> string list \<Rightarrow> path list" where
  "confirmed dups inp =
     map fst (filter (\<lambda>(d, r). r = ''y'' \<or> r = ''Y'') (responses dups inp))"

section \<open>Group reports and the order of map iteration\<close>

text \<open>
  The report of a group is its header line with the lines printed under it (keeper,
  duplicates, deletions); \<open>group_reports\<close> cuts the output of a run into these reports.
\<close>

fun report_step :: "event \<Rightarrow> event list \<times> event list list \<Rightarrow> event list \<times> event list list" where
  "report_step (PrintGroup h) (cur, bs) = ([], (PrintGroup h # cur) # bs)"
| "report_step (PrintKeeper p) (cur, bs) = (PrintKeeper p # cur, bs)"
| "report_step (PrintDuplicate p) (cur, bs) = (PrintDuplicate p # cur, bs)"
| "report_step (PrintDeleted p) (cur, bs) = (PrintDeleted p # cur, bs)"
| "report_step _ (cur, bs) = (cur, bs)"

definition group_reports :: "event list \<Rightarrow> event list list" where
  "group_reports tr = snd (foldr report_step tr ([], []))"

text \<open>What a dry run prints for one digest group.\<close>

definition block :: "env \<Rightarrow> filesystem \<Rightarrow> string \<times> path list \<Rightarrow> event list" where
  "block e fsys g =
     (if length (snd g) < 2 then []
      else case sort_Slice e (lessFunc e fsys) (snd g) of
             Some (k # ds) \<Rightarrow> PrintGroup (take 8 (fst g)) # PrintKeeper k # map PrintDuplicate ds
           | _ \<Rightarrow> [])"

text \<open>The paths of the size buckets that are hashed, bucket by bucket.\<close>

definition candidates :: "(int64 \<times> path list) list \<Rightarrow> path list" where
  "candidates bs = concat (map (\<lambda>b. if length (snd b) < 2 then [] else snd b) bs)"

text \<open>
  Two runs on the same platform differ at most in the order in which \<^verbatim>\<open>range\<close> visits
  the two maps; a \<^verbatim>\<open>range\<close> visits every key once; and the tree is unmodified between
  scan and hashing when two scanned files whose recorded sizes differ never have the same
  digest.
\<close>

definition range_permutes :: "env \<Rightarrow> bool" where
  "range_permutes e \<longleftrightarrow>
     (\<forall>ks. mset (rangeSizes e ks) = mset ks) \<and> (\<forall>ks. mset (rangeHashes e ks) = mset ks)"

definition same_platform :: "env \<Rightarrow> env \<Rightarrow> bool" where
  "same_platform e e' \<longleftrightarrow>
     SplitList e' = SplitList e \<and> Walk e' = Walk e \<and> VolumeName e' = VolumeName e
     \<and> sha256hex e' = sha256hex e \<and> sort_Slice e' = sort_Slice e"

definition sizes_tell_digests :: "env \<Rightarrow> flags \<Rightarrow> filesystem \<Rightarrow> bool" where
  "sizes_tell_digests e fl fs0 \<longleftrightarrow>
     (\<forall>b\<in>set (fst (scan e fl)). \<forall>b'\<in>set (fst (scan e fl)).
        \<forall>p\<in>set (snd b). \<forall>q\<in>set (snd b').
          fst b \<noteq> fst b' \<longrightarrow>
          isl (fileHash e fs0 p) \<or> fileHash e fs0 p \<noteq> fileHash e fs0 q)"

section \<open>What the scan puts into the size map\<close>

text \<open>
  The entries the callback of the walk appends to the size map, path and size, in the
  order of the walk: every call without an error, for something that is neither a
  directory nor a symbolic link, with a size other than zero. \<open>scanned\<close> lists them for
  all roots; a path met twice is there twice. \<open>bucket_of\<close> is the bucket of a size, and
  \<open>size_inv\<close> says that the size map holds exactly these buckets.
\<close>

definition bucketed :: "(path \<times> (error + FileInfo)) list \<Rightarrow> (path \<times> int64) list" where
  "bucketed vs =
     List.map_filter
       (\<lambda>v. case snd v of
              Inl _ \<Rightarrow> None
            | Inr info \<Rightarrow>
                if IsDir info \<or> ModeSymlink info \<or> Size info = 0 then None
                else Some (fst v, Size info))
       vs"

definition scanned :: "env \<Rightarrow> flags \<Rightarrow> (path \<times> int64) list" where
  "scanned e fl =
     concat (map (\<lambda>root. bucketed (fst (Walk e root))) (SplitList e (partitions fl)))"

definition bucket_of :: "(path \<times> int64) list \<Rightarrow> int64 \<Rightarrow> path list" where
  "bucket_of es sz = map fst (filter (\<lambda>en. snd en = sz) es)"

definition size_inv :: "(path \<times> int64) list \<Rightarrow> (int64 \<times> path list) list \<Rightarrow> bool" where
  "size_inv es sm \<longleftrightarrow>
     distinct (map fst sm)
     \<and> (\<forall>sz. map_of sm sz = (if bucket_of es sz = [] then None else Some (bucket_of es sz)))
     \<and> mset (concat (map snd sm)) = mset (map fst es)"

section \<open>\<^verbatim>\<open>sort.Slice\<close> as the Go library implements it\<close>

text \<open>
  \<^verbatim>\<open>sort.Slice\<close> of the Go library since Go 1.19 (\<^verbatim>\<open>sort/slice.go\<close>, \<^verbatim>\<open>sort/zsortfunc.go\<close>):
  pattern-defeating quicksort over the indices of the slice, through \<^verbatim>\<open>less(i, j)\<close> and
  \<^verbatim>\<open>swap(i, j)\<close>. Indices are Go \<^verbatim>\<open>int\<close>s. A panic of the comparison function is \<open>None\<close>;
  the loops whose end depends on the answers of the comparison function are partial
  functions, for which not ending is \<open>None\<close> as well.
  A slice of at most 12 elements is sorted by insertion; a longer one is partitioned around
  a pivot, after an attempt at a partial insertion sort when it looks sorted, with heap
  sort as the fallback when \<^verbatim>\<open>limit\<close> bad pivots have been met. The pseudo-random
  generator of \<^verbatim>\<open>breakPatterns\<close> (\<^verbatim>\<open>xorshift.Next\<close>, on a 64-bit word) is the parameter
  \<open>Next\<close>.
\<close>

unbundle bit_operations_syntax

text \<open>The hint \<^verbatim>\<open>choosePivot\<close> gives, and \<^verbatim>\<open>data.Less(i, j)\<close> and \<^verbatim>\<open>data.Swap(i, j)\<close>.\<close>

datatype sortedHint = unknownHint | increasingHint | decreasingHint

definition Less :: "('a \<Rightarrow> 'a \<Rightarrow> bool option) \<Rightarrow> 'a list \<Rightarrow> int \<Rightarrow> int \<Rightarrow> bool option" where
  "Less lt data i j = lt (data ! nat i) (data ! nat j)"

definition Swap :: "'a list \<Rightarrow> int \<Rightarrow> int \<Rightarrow> 'a list" where
  "Swap data i j = data[nat i := data ! nat j, nat j := data ! nat i]"

text \<open>
  \<^verbatim>\<open>insertionSort_func\<close>: \<^verbatim>\<open>for i := a + 1; i < b; i++\<close> around
  \<^verbatim>\<open>for j := i; j > a && data.Less(j, j-1); j--\<close>, which swaps \<^verbatim>\<open>j\<close> and \<^verbatim>\<open>j-1\<close>.
\<close>

function insertion_inner ::
  "('a \<Rightarrow> 'a \<Rightarrow> bool option) \<Rightarrow> 'a list \<Rightarrow> int \<Rightarrow> int \<Rightarrow> 'a list option" where
  "insertion_inner lt data a j =
     (if j > a then
        (case Less lt data j (j - 1) of
           None \<Rightarrow> None
         | Some True \<Rightarrow> insertion_inner lt (Swap data j (j - 1)) a (j - 1)
         | Some False \<Rightarrow> Some data)
      else Some data)"
  by pat_completeness auto
termination
  by (relation "measure (\<lambda>(lt, data, a, j). nat (j - a))") auto

function insertion_outer ::
  "('a \<Rightarrow> 'a \<Rightarrow> bool option) \<Rightarrow> 'a list \<Rightarrow> int \<Rightarrow> int \<Rightarrow> int \<Rightarrow> 'a list option" where
  "insertion_outer lt data a b i =
     (if i < b then
        (case insertion_inner lt data a i of
           None \<Rightarrow> None
         | Some data \<Rightarrow> insertion_outer lt data a b (i + 1))
      else Some data)"
  by pat_completeness auto
termination
  by (relation "measure (\<lambda>(lt, data, a, b, i). nat (b - i))") auto

definition insertionSort_func ::
  "('a \<Rightarrow> 'a \<Rightarrow> bool option) \<Rightarrow> 'a list \<Rightarrow> int \<Rightarrow> int \<Rightarrow> 'a list option" where
  "insertionSort_func lt data a b = insertion_outer lt data a b (a + 1)"

text \<open>
  \<^verbatim>\<open>siftDown_func\<close> and \<^verbatim>\<open>heapSort_func\<close>. The two loops of \<^verbatim>\<open>heapSort_func\<close> count
  \<^verbatim>\<open>i\<close> down to 0; \<open>for_each\<close> runs a loop body over the values of its counter.
\<close>

partial_function (option) siftDown_loop ::
  "('a \<Rightarrow> 'a \<Rightarrow> bool option) \<Rightarrow> 'a list \<Rightarrow> int \<Rightarrow> int \<Rightarrow> int \<Rightarrow> 'a list option" where
  "siftDown_loop lt data hi first root =
     (let child = 2 * root + 1
      in if child \<ge> hi then Some data
         else
          (case (if child + 1 < hi then Less lt data (first + child) (first + child + 1)
                 else Some False) of
             None \<Rightarrow> None
           | Some right \<Rightarrow>
              (let child = (if right then child + 1 else child)
               in case Less lt data (first + root) (first + child) of
                    None \<Rightarrow> None
                  | Some below \<Rightarrow>
                      if \<not> below then Some data
                      else siftDown_loop lt (Swap data (first + root) (first + child))
                             hi first child)))"

definition siftDown_func ::
  "('a \<Rightarrow> 'a \<Rightarrow> bool option) \<Rightarrow> 'a list \<Rightarrow> int \<Rightarrow> int \<Rightarrow> int \<Rightarrow> 'a list option" where
  "siftDown_func lt data lo hi first = siftDown_loop lt data hi first lo"

primrec for_each :: "(int \<Rightarrow> 'a list \<Rightarrow> 'a list option) \<Rightarrow> int list \<Rightarrow> 'a list \<Rightarrow> 'a list option" where
  "for_each body [] data = Some data"
| "for_each body (i # is) data =
     (case body i data of None \<Rightarrow> None | Some data \<Rightarrow> for_each body is data)"

definition heapSort_func ::
  "('a \<Rightarrow> 'a \<Rightarrow> bool option) \<Rightarrow> 'a list \<Rightarrow> int \<Rightarrow> int \<Rightarrow> 'a list option" where
  "heapSort_func lt data a b =
     (let first = a; lo = 0; hi = b - a
      in case for_each (\<lambda>i data. siftDown_func lt data i hi first)
                (rev [0..(hi - 1) sdiv 2]) data of
           None \<Rightarrow> None
         | Some data \<Rightarrow>
             for_each (\<lambda>i data. siftDown_func lt (Swap data first (first + i)) lo i first)
               (rev [0..hi - 1]) data)"

text \<open>
  \<^verbatim>\<open>partition_func\<close>: the pivot goes to \<^verbatim>\<open>a\<close>; \<^verbatim>\<open>i\<close> moves right over the elements
  less than the pivot (\<open>skip_less\<close>), \<^verbatim>\<open>j\<close> moves left over the others
  (\<open>skip_not_less\<close>), and the two elements they stop at are swapped, until \<^verbatim>\<open>i > j\<close>.
  The result is the slice, the index of the pivot, and whether the first pass found
  the slice already partitioned.
\<close>

function skip_less ::
  "('a \<Rightarrow> 'a \<Rightarrow> bool option) \<Rightarrow> 'a list \<Rightarrow> int \<Rightarrow> int \<Rightarrow> int \<Rightarrow> int option" where
  "skip_less lt data a i j =
     (if i \<le> j then
        (case Less lt data i a of
           None \<Rightarrow> None
         | Some True \<Rightarrow> skip_less lt data a (i + 1) j
         | Some False \<Rightarrow> Some i)
      else Some i)"
  by pat_completeness auto
termination
  by (relation "measure (\<lambda>(lt, data, a, i, j). nat (j + 1 - i))") auto

function skip_not_less ::
  "('a \<Rightarrow> 'a \<Rightarrow> bool option) \<Rightarrow> 'a list \<Rightarrow> int \<Rightarrow> int \<Rightarrow> int \<Rightarrow> int option" where
  "skip_not_less lt data a i j =
     (if i \<le> j then
        (case Less lt data j a of
           None \<Rightarrow> None
         | Some False \<Rightarrow> skip_not_less lt data a i (j - 1)
         | Some True \<Rightarrow> Some j)
      else Some j)"
  by pat_completeness auto
termination
  by (relation "measure (\<lambda>(lt, data, a, i, j). nat (j + 1 - i))") auto

partial_function (option) partition_loop ::
  "('a \<Rightarrow> 'a \<Rightarrow> bool option) \<Rightarrow> 'a list \<Rightarrow> int \<Rightarrow> int \<Rightarrow> int \<Rightarrow> ('a list \<times> int) option" where
  "partition_loop lt data a i j =
     (case skip_less lt data a i j of
        None \<Rightarrow> None
      | Some i \<Rightarrow>
         (case skip_not_less lt data a i j of
            None \<Rightarrow> None
          | Some j \<Rightarrow>
              if i > j then Some (data, j)
              else partition_loop lt (Swap data i j) a (i + 1) (j - 1)))"

definition partition_func ::
  "('a \<Rightarrow> 'a \<Rightarrow> bool option) \<Rightarrow> 'a list \<Rightarrow> int \<Rightarrow> int \<Rightarrow> int
     \<Rightarrow> ('a list \<times> int \<times> bool) option" where
  "partition_func lt data a b pivot =
     (let data = Swap data a pivot
      in case skip_less lt data a (a + 1) (b - 1) of
           None \<Rightarrow> None
         | Some i \<Rightarrow>
            (case skip_not_less lt data a i (b - 1) of
               None \<Rightarrow> None
             | Some j \<Rightarrow>
                 if i > j then Some (Swap data j a, j, True)
                 else (case partition_loop lt (Swap data i j) a (i + 1) (j - 1) of
                         None \<Rightarrow> None
                       | Some (data, j) \<Rightarrow> Some (Swap data j a, j, False))))"

text \<open>
  \<^verbatim>\<open>partitionEqual_func\<close>: the same with the elements equal to the pivot on the left
  and the greater ones on the right.
\<close>

function skip_not_greater ::
  "('a \<Rightarrow> 'a \<Rightarrow> bool option) \<Rightarrow> 'a list \<Rightarrow> int \<Rightarrow> int \<Rightarrow> int \<Rightarrow> int option" where
  "skip_not_greater lt data a i j =
     (if i \<le> j then
        (case Less lt data a i of
           None \<Rightarrow> None
         | Some False \<Rightarrow> skip_not_greater lt data a (i + 1) j
         | Some True \<Rightarrow> Some i)
      else Some i)"
  by pat_completeness auto
termination
  by (relation "measure (\<lambda>(lt, data, a, i, j). nat (j + 1 - i))") auto

function skip_greater ::
  "('a \<Rightarrow> 'a \<Rightarrow> bool option) \<Rightarrow> 'a list \<Rightarrow> int \<Rightarrow> int \<Rightarrow> int \<Rightarrow> int option" where
  "skip_greater lt data a i j =
     (if i \<le> j then
        (case Less lt data a j of
           None \<Rightarrow> None
         | Some True \<Rightarrow> skip_greater lt data a i (j - 1)
         | Some False \<Rightarrow> Some j)
      else Some j)"
  by pat_completeness auto
termination
  by (relation "measure (\<lambda>(lt, data, a, i, j). nat (j + 1 - i))") auto

partial_function (option) partitionEqual_loop ::
  "('a \<Rightarrow> 'a \<Rightarrow> bool option) \<Rightarrow> 'a list \<Rightarrow> int \<Rightarrow> int \<Rightarrow> int \<Rightarrow> ('a list \<times> int) option" where
  "partitionEqual_loop lt data a i j =
     (case skip_not_greater lt data a i j of
        None \<Rightarrow> None
      | Some i \<Rightarrow>
         (case skip_greater lt data a i j of
            None \<Rightarrow> None
          | Some j \<Rightarrow>
              if i > j then Some (data, i)
              else partitionEqual_loop lt (Swap data i j) a (i + 1) (j - 1)))"

definition partitionEqual_func ::
  "('a \<Rightarrow> 'a \<Rightarrow> bool option) \<Rightarrow> 'a list \<Rightarrow> int \<Rightarrow> int \<Rightarrow> int \<Rightarrow> ('a list \<times> int) option" where
  "partitionEqual_func lt data a b pivot =
     partitionEqual_loop lt (Swap data a pivot) a (a + 1) (b - 1)"

text \<open>
  \<^verbatim>\<open>partialInsertionSort_func\<close>: at most 5 times, find the next descent; the slice is
  sorted when there is none; a slice shorter than 50 is given up at the first descent;
  otherwise the two elements are swapped and shifted into place.
\<close>

function run_up ::
  "('a \<Rightarrow> 'a \<Rightarrow> bool option) \<Rightarrow> 'a list \<Rightarrow> int \<Rightarrow> int \<Rightarrow> int option" where
  "run_up lt data b i =
     (if i < b then
        (case Less lt data i (i - 1) of
           None \<Rightarrow> None
         | Some False \<Rightarrow> run_up lt data b (i + 1)
         | Some True \<Rightarrow> Some i)
      else Some i)"
  by pat_completeness auto
termination
  by (relation "measure (\<lambda>(lt, data, b, i). nat (b - i))") auto

function shift_left ::
  "('a \<Rightarrow> 'a \<Rightarrow> bool option) \<Rightarrow> 'a list \<Rightarrow> int \<Rightarrow> 'a list option" where
  "shift_left lt data j =
     (if j \<ge> 1 then
        (case Less lt data j (j - 1) of
           None \<Rightarrow> None
         | Some False \<Rightarrow> Some data
         | Some True \<Rightarrow> shift_left lt (Swap data j (j - 1)) (j - 1))
      else Some data)"
  by pat_completeness auto
termination
  by (relation "measure (\<lambda>(lt, data, j). nat j)") auto

function shift_right ::
  "('a \<Rightarrow> 'a \<Rightarrow> bool option) \<Rightarrow> 'a list \<Rightarrow> int \<Rightarrow> int \<Rightarrow> 'a list option" where
  "shift_right lt data b j =
     (if j < b then
        (case Less lt data j (j - 1) of
           None \<Rightarrow> None
         | Some False \<Rightarrow> Some data
         | Some True \<Rightarrow> shift_right lt (Swap data j (j - 1)) b (j + 1))
      else Some data)"
  by pat_completeness auto
termination
  by (relation "measure (\<lambda>(lt, data, b, j). nat (b - j))") auto

function partialInsertionSort_loop ::
  "('a \<Rightarrow> 'a \<Rightarrow> bool option) \<Rightarrow> 'a list \<Rightarrow> int \<Rightarrow> int \<Rightarrow> int \<Rightarrow> int
     \<Rightarrow> ('a list \<times> bool) option" where
  "partialInsertionSort_loop lt data a b i j =
     (if j < 5 then
        (case run_up lt data b i of
           None \<Rightarrow> None
         | Some i \<Rightarrow>
             if i = b then Some (data, True)
             else if b - a < 50 then Some (data, False)
             else
              (case (if i - a \<ge> 2 then shift_left lt (Swap data i (i - 1)) (i - 1)
                     else Some (Swap data i (i - 1))) of
                 None \<Rightarrow> None
               | Some data \<Rightarrow>
                  (case (if b - i \<ge> 2 then shift_right lt data b (i + 1) else Some data) of
                     None \<Rightarrow> None
                   | Some data \<Rightarrow> partialInsertionSort_loop lt data a b i (j + 1))))
      else Some (data, False))"
  by pat_completeness auto
termination
  by (relation "measure (\<lambda>(lt, data, a, b, i, j). nat (5 - j))") auto

definition partialInsertionSort_func ::
  "('a \<Rightarrow> 'a \<Rightarrow> bool option) \<Rightarrow> 'a list \<Rightarrow> int \<Rightarrow> int \<Rightarrow> ('a list \<times> bool) option" where
  "partialInsertionSort_func lt data a b = partialInsertionSort_loop lt data a b (a + 1) 0"

text \<open>
  \<^verbatim>\<open>bits.Len\<close>, \<^verbatim>\<open>nextPowerOfTwo\<close> and \<^verbatim>\<open>breakPatterns_func\<close>, which swaps three
  elements around the middle with pseudo-randomly chosen ones.
\<close>

fun bits_Len :: "nat \<Rightarrow> nat" where
  "bits_Len n = (if n = 0 then 0 else Suc (bits_Len (n div 2)))"

declare bits_Len.simps [simp del]

definition nextPowerOfTwo :: "int \<Rightarrow> 64 word" where
  "nextPowerOfTwo len = push_bit (bits_Len (nat len)) 1"

primrec scatter ::
  "(64 word \<Rightarrow> 64 word) \<Rightarrow> int \<Rightarrow> 64 word \<Rightarrow> int \<Rightarrow> int \<Rightarrow> int list \<Rightarrow> 64 word \<Rightarrow> 'a list \<Rightarrow> 'a list" where
  "scatter Next len modulus a idx [] random data = data"
| "scatter Next len modulus a idx (i # is) random data =
     (let random = Next random;
          other = uint (random AND (modulus - 1));
          other = (if other \<ge> len then other - len else other)
      in scatter Next len modulus a idx is random (Swap data (idx - 1 + i) (a + other)))"

definition breakPatterns_func :: "(64 word \<Rightarrow> 64 word) \<Rightarrow> 'a list \<Rightarrow> int \<Rightarrow> int \<Rightarrow> 'a list" where
  "breakPatterns_func Next data a b =
     (let len = b - a
      in if len \<ge> 8 then
           scatter Next len (nextPowerOfTwo len) a (a + (len sdiv 4) * 2 - 1) [0, 1, 2]
             (word_of_int len) data
         else data)"

text \<open>
  \<^verbatim>\<open>choosePivot_func\<close> with \<^verbatim>\<open>order2_func\<close>, \<^verbatim>\<open>median_func\<close> and
  \<^verbatim>\<open>medianAdjacent_func\<close>; the counter \<^verbatim>\<open>swaps\<close> is passed along.
\<close>

definition order2_func ::
  "('a \<Rightarrow> 'a \<Rightarrow> bool option) \<Rightarrow> 'a list \<Rightarrow> int \<Rightarrow> int \<Rightarrow> int \<Rightarrow> (int \<times> int \<times> int) option" where
  "order2_func lt data a b swaps =
     (case Less lt data b a of
        None \<Rightarrow> None
      | Some True \<Rightarrow> Some (b, a, swaps + 1)
      | Some False \<Rightarrow> Some (a, b, swaps))"

definition median_func ::
  "('a \<Rightarrow> 'a \<Rightarrow> bool option) \<Rightarrow> 'a list \<Rightarrow> int \<Rightarrow> int \<Rightarrow> int \<Rightarrow> int \<Rightarrow> (int \<times> int) option" where
  "median_func lt data a b c swaps =
     (case order2_func lt data a b swaps of
        None \<Rightarrow> None
      | Some (a, b, swaps) \<Rightarrow>
         (case order2_func lt data b c swaps of
            None \<Rightarrow> None
          | Some (b, c, swaps) \<Rightarrow>
             (case order2_func lt data a b swaps of
                None \<Rightarrow> None
              | Some (a, b, swaps) \<Rightarrow> Some (b, swaps))))"

definition medianAdjacent_func ::
  "('a \<Rightarrow> 'a \<Rightarrow> bool option) \<Rightarrow> 'a list \<Rightarrow> int \<Rightarrow> int \<Rightarrow> (int \<times> int) option" where
  "medianAdjacent_func lt data a swaps = median_func lt data (a - 1) a (a + 1) swaps"

definition choosePivot_func ::
  "('a \<Rightarrow> 'a \<Rightarrow> bool option) \<Rightarrow> 'a list \<Rightarrow> int \<Rightarrow> int \<Rightarrow> (int \<times> sortedHint) option" where
  "choosePivot_func lt data a b =
     (let l = b - a;
          i = a + l sdiv 4 * 1;
          j = a + l sdiv 4 * 2;
          k = a + l sdiv 4 * 3
      in case (if l \<ge> 8 then
                 (case (if l \<ge> 50 then
                          (case medianAdjacent_func lt data i 0 of
                             None \<Rightarrow> None
                           | Some (i, swaps) \<Rightarrow>
                              (case medianAdjacent_func lt data j swaps of
                                 None \<Rightarrow> None
                               | Some (j, swaps) \<Rightarrow>
                                  (case medianAdjacent_func lt data k swaps of
                                     None \<Rightarrow> None
                                   | Some (k, swaps) \<Rightarrow> Some (i, j, k, swaps))))
                        else Some (i, j, k, 0)) of
                    None \<Rightarrow> None
                  | Some (i, j, k, swaps) \<Rightarrow> median_func lt data i j k swaps)
               else Some (j, 0)) of
           None \<Rightarrow> None
         | Some (j, swaps) \<Rightarrow>
             Some (j, if swaps = 0 then increasingHint
                      else if swaps = 4 * 3 then decreasingHint
                      else unknownHint))"

text \<open>\<^verbatim>\<open>reverseRange_func\<close>.\<close>

function reverseRange_loop :: "'a list \<Rightarrow> int \<Rightarrow> int \<Rightarrow> 'a list" where
  "reverseRange_loop data i j =
     (if i < j then reverseRange_loop (Swap data i j) (i + 1) (j - 1) else data)"
  by pat_completeness auto
termination
  by (relation "measure (\<lambda>(data, i, j). nat (j - i))") auto

definition reverseRange_func :: "'a list \<Rightarrow> int \<Rightarrow> int \<Rightarrow> 'a list" where
  "reverseRange_func data a b = reverseRange_loop data a (b - 1)"

text \<open>
  \<^verbatim>\<open>pdqsort_func\<close>, one round of its loop per call. The state of the loop is the slice,
  \<^verbatim>\<open>a\<close>, \<^verbatim>\<open>b\<close>, \<^verbatim>\<open>limit\<close>, \<^verbatim>\<open>wasBalanced\<close> and \<^verbatim>\<open>wasPartitioned\<close>. The shorter side
  of a partition is sorted by a call of its own, the longer one by the next round.
\<close>

partial_function (option) pdqsort_func ::
  "(64 word \<Rightarrow> 64 word) \<Rightarrow> ('a \<Rightarrow> 'a \<Rightarrow> bool option)
     \<Rightarrow> 'a list \<times> int \<times> int \<times> int \<times> bool \<times> bool \<Rightarrow> 'a list option" where
  "pdqsort_func Next lt st =
     (case st of (data, a, b, limit, wasBalanced, wasPartitioned) \<Rightarrow>
      let len = b - a
      in if len \<le> 12 then insertionSort_func lt data a b
         else if limit = 0 then heapSort_func lt data a b
         else
          (let data = (if \<not> wasBalanced then breakPatterns_func Next data a b else data);
               limit = (if \<not> wasBalanced then limit - 1 else limit)
           in case choosePivot_func lt data a b of
                None \<Rightarrow> None
              | Some (pivot, hint) \<Rightarrow>
                 (let data = (if hint = decreasingHint then reverseRange_func data a b else data);
                      pivot = (if hint = decreasingHint then (b - 1) - (pivot - a) else pivot);
                      hint = (if hint = decreasingHint then increasingHint else hint)
                  in case (if wasBalanced \<and> wasPartitioned \<and> hint = increasingHint
                           then partialInsertionSort_func lt data a b
                           else Some (data, False)) of
                       None \<Rightarrow> None
                     | Some (data, ok) \<Rightarrow>
                        if ok then Some data
                        else
                         (case (if a > 0 then Less lt data (a - 1) pivot else Some True) of
                            None \<Rightarrow> None
                          | Some ordered \<Rightarrow>
                             if \<not> ordered then
                              (case partitionEqual_func lt data a b pivot of
                                 None \<Rightarrow> None
                               | Some (data, mid) \<Rightarrow>
                                   pdqsort_func Next lt
                                     (data, mid, b, limit, wasBalanced, wasPartitioned))
                             else
                              (case partition_func lt data a b pivot of
                                None \<Rightarrow> None
                              | Some (data, mid, alreadyPartitioned) \<Rightarrow>
                                 (let leftLen = mid - a;
                                      rightLen = b - mid;
                                      balanceThreshold = len sdiv 8
                                  in if leftLen < rightLen then
                                       Option.bind
                                         (pdqsort_func Next lt (data, a, mid, limit, True, True))
                                         (\<lambda>data. pdqsort_func Next lt
                                            (data, mid + 1, b, limit,
                                             leftLen \<ge> balanceThreshold, alreadyPartitioned))
                                     else
                                       Option.bind
                                         (pdqsort_func Next lt (data, mid + 1, b, limit, True, True))
                                         (\<lambda>data. pdqsort_func Next lt
                                            (data, a, mid, limit,
                                             rightLen \<ge> balanceThreshold, alreadyPartitioned))))))))"

text \<open>\<^verbatim>\<open>sort.Slice(x, less)\<close>: \<^verbatim>\<open>pdqsort_func\<close> on the whole slice, with \<^verbatim>\<open>limit = bits.Len(length)\<close>.\<close>

definition Slice ::
  "(64 word \<Rightarrow> 64 word) \<Rightarrow> ('a \<Rightarrow> 'a \<Rightarrow> bool option) \<Rightarrow> 'a list \<Rightarrow> 'a list option" where
  "Slice Next lt x =
     (let len = int (length x);
          limit = int (bits_Len (nat len))
      in pdqsort_func Next lt (x, 0, len, limit, True, True))"

declare insertion_inner.simps [simp del] insertion_outer.simps [simp del]
  skip_less.simps [simp del] skip_not_less.simps [simp del]
  skip_not_greater.simps [simp del] skip_greater.simps [simp del]
  run_up.simps [simp del] shift_left.simps [simp del] shift_right.simps [simp del]
  partialInsertionSort_loop.simps [simp del] reverseRange_loop.simps [simp del]

section \<open>\<^verbatim>\<open>filepath.VolumeName\<close> and the printed order of a group\<close>

text \<open>
  \<^verbatim>\<open>filepath.VolumeName\<close> of the Go library is
  \<^verbatim>\<open>FromSlash(path[:volumeNameLen(path)])\<close>: the leading volume name of the path, with
  every \<^verbatim>\<open>/\<close> replaced by the separator of the platform. It takes the path string and
  nothing else. The length of the volume prefix is the platform's; on every platform
  other than Windows \<^verbatim>\<open>volumeNameLen\<close> returns 0 and the separator is \<^verbatim>\<open>/\<close>.
\<close>

definition FromSlash :: "char \<Rightarrow> string \<Rightarrow> string" where
  "FromSlash Separator p = map (\<lambda>c. if c = CHR ''/'' then Separator else c) p"

definition VolumeName_lib :: "(path \<Rightarrow> nat) \<Rightarrow> char \<Rightarrow> path \<Rightarrow> string" where
  "VolumeName_lib volumeNameLen Separator p = FromSlash Separator (take (volumeNameLen p) p)"

definition volumeNameLen_unix :: "path \<Rightarrow> nat" where
  "volumeNameLen_unix p = 0"

definition VolumeName_unix :: "path \<Rightarrow> string" where
  "VolumeName_unix = VolumeName_lib volumeNameLen_unix CHR ''/''"

text \<open>The program on a platform other than Windows.\<close>

definition on_unix :: "env \<Rightarrow> env" where
  "on_unix e = e\<lparr>VolumeName := VolumeName_unix\<rparr>"

text \<open>
  The paths a group report lists, keeper first, in the order of the lines; and the
  events of the loop over the duplicates of a group.
\<close>

definition listed :: "event list \<Rightarrow> path list" where
  "listed tr =
     List.map_filter
       (\<lambda>ev. case ev of PrintKeeper p \<Rightarrow> Some p | PrintDuplicate p \<Rightarrow> Some p | _ \<Rightarrow> None) tr"

fun duplicate_event :: "event \<Rightarrow> bool" where
  "duplicate_event (PrintDuplicate _) = True"
| "duplicate_event (PrintPrompt _) = True"
| "duplicate_event (CallRemove _) = True"
| "duplicate_event (LogErrDelete _ _) = True"
| "duplicate_event (PrintDeleted _) = True"
| "duplicate_event _ = False"

section \<open>Concrete runs\<close>

text \<open>
  A platform without volume names (\<^verbatim>\<open>filepath.VolumeName\<close> is empty for every path), a
  list separator \<^verbatim>\<open>:\<close>, and a stand-in for the digest that pads the content to 64
  characters.
\<close>

fun splitColon :: "string \<Rightarrow> string list" where
  "splitColon [] = [[]]"
| "splitColon (c # cs) =
     (if c = CHR '':'' then [] # splitColon cs
      else (case splitColon cs of [] \<Rightarrow> [[c]] | w # ws \<Rightarrow> (c # w) # ws))"

definition demo_digest :: "string \<Rightarrow> string" where
  "demo_digest c =
     take 64 (c @ ''0000000000000000000000000000000000000000000000000000000000000000'')"

definition reg :: "nat \<Rightarrow> error + FileInfo" where
  "reg n = Inr \<lparr>IsDir = False, ModeSymlink = False, Size = of_nat n, ModTime = 0\<rparr>"

definition dir :: "error + FileInfo" where
  "dir = Inr \<lparr>IsDir = True, ModeSymlink = False, Size = 4096, ModTime = 0\<rparr>"

text \<open>
  The directory \<^verbatim>\<open>/a\<close> holds \<^verbatim>\<open>x\<close> and \<^verbatim>\<open>y\<close> with the same three bytes, \<^verbatim>\<open>x\<close> the older,
  and \<^verbatim>\<open>z\<close> with four bytes.
\<close>

definition walk_A :: "string \<Rightarrow> (path \<times> (error + FileInfo)) list \<times> error option" where
  "walk_A root =
     (if root = ''/a''
      then ([(''/a'', dir), (''/a/x'', reg 3), (''/a/y'', reg 3), (''/a/z'', reg 4)], None)
      else ([(root, Inl ENOENT)], None))"

definition env_A :: env where
  "env_A = \<lparr>SplitList = splitColon, Walk = walk_A, VolumeName = (\<lambda>_. []),
            sha256hex = demo_digest, sort_Slice = insertionSort,
            rangeSizes = id, rangeHashes = id\<rparr>"

definition fs_A :: filesystem where
  "fs_A =
     [''/a/x'' \<mapsto> \<lparr>content = ''abc'', modTime = 10, readable = True, removable = True\<rparr>,
      ''/a/y'' \<mapsto> \<lparr>content = ''abc'', modTime = 20, readable = True, removable = True\<rparr>,
      ''/a/z'' \<mapsto> \<lparr>content = ''abcd'', modTime = 5, readable = True, removable = True\<rparr>]"

definition flags_A :: flags where
  "flags_A = \<lparr>partitions = ''/a'', dryRun = False, confirm = False, verbose = False\<rparr>"

text \<open>
  A platform with drive letters: the volume name of a path is its first two characters.
  Three files with the same bytes on two volumes.
\<close>

definition walk_V :: "string \<Rightarrow> (path \<times> (error + FileInfo)) list \<times> error option" where
  "walk_V root = ([(''D:/a'', reg 2), (''C:/b'', reg 2), (''C:/c'', reg 2)], None)"

definition env_V :: env where
  "env_V = env_A\<lparr>Walk := walk_V, VolumeName := take 2\<rparr>"

definition fs_V :: filesystem where
  "fs_V =
     [''D:/a'' \<mapsto> \<lparr>content = ''hi'', modTime = 1, readable = True, removable = True\<rparr>,
      ''C:/b'' \<mapsto> \<lparr>content = ''hi'', modTime = 9, readable = True, removable = True\<rparr>,
      ''C:/c'' \<mapsto> \<lparr>content = ''hi'', modTime = 5, readable = True, removable = True\<rparr>]"

definition state_V :: state where
  "state_V = \<lparr>fs = fs_V, stdin = [], trace = [], duplicateCount = 0, totalSaved = 0,
              panicked = False\<rparr>"

text \<open>
  The deletion stage entered with four copies of the same bytes, of which \<^verbatim>\<open>/a/y\<close> cannot
  be removed, and the answers \<^verbatim>\<open>n\<close> and \<^verbatim>\<open>Y\<close> waiting on standard input.
\<close>

definition fs_C :: filesystem where
  "fs_C =
     [''/a/x'' \<mapsto> \<lparr>content = ''abc'', modTime = 10, readable = True, removable = True\<rparr>,
      ''/a/y'' \<mapsto> \<lparr>content = ''abc'', modTime = 20, readable = True, removable = False\<rparr>,
      ''/a/z'' \<mapsto> \<lparr>content = ''abc'', modTime = 30, readable = True, removable = True\<rparr>,
      ''/a/w'' \<mapsto> \<lparr>content = ''abc'', modTime = 40, readable = True, removable = True\<rparr>]"

definition state_C :: state where
  "state_C = \<lparr>fs = fs_C, stdin = [''n'', ''Y''], trace = [], duplicateCount = 0,
              totalSaved = 0, panicked = False\<rparr>"

text \<open>
  Nested roots: \<^verbatim>\<open>--partitions /d:/d/s\<close>, where \<^verbatim>\<open>/d/s/f\<close> is the only file. Walking
  \<^verbatim>\<open>/d\<close> meets it, and walking \<^verbatim>\<open>/d/s\<close> meets it again.
\<close>

definition walk_N :: "string \<Rightarrow> (path \<times> (error + FileInfo)) list \<times> error option" where
  "walk_N root =
     (if root = ''/d'' then ([(''/d'', dir), (''/d/s'', dir), (''/d/s/f'', reg 5)], None)
      else if root = ''/d/s'' then ([(''/d/s'', dir), (''/d/s/f'', reg 5)], None)
      else ([(root, Inl ENOENT)], None))"

definition env_N :: env where
  "env_N = env_A\<lparr>Walk := walk_N\<rparr>"

definition fs_N :: filesystem where
  "fs_N =
     [''/d/s/f'' \<mapsto> \<lparr>content = ''hello'', modTime = 7, readable = True, removable = True\<rparr>]"

definition flags_N :: flags where
  "flags_N = \<lparr>partitions = ''/d:/d/s'', dryRun = False, confirm = False, verbose = False\<rparr>"

text \<open>
  Three files of the same size in \<^verbatim>\<open>/a\<close>, of which \<^verbatim>\<open>/a/y\<close> cannot be read.
\<close>

definition walk_U :: "string \<Rightarrow> (path \<times> (error + FileInfo)) list \<times> error option" where
  "walk_U root = ([(''/a'', dir), (''/a/x'', reg 3), (''/a/y'', reg 3), (''/a/w'', reg 3)], None)"

definition env_U :: env where
  "env_U = env_A\<lparr>Walk := walk_U\<rparr>"

definition fs_U :: filesystem where
  "fs_U =
     [''/a/x'' \<mapsto> \<lparr>content = ''abc'', modTime = 10, readable = True, removable = True\<rparr>,
      ''/a/y'' \<mapsto> \<lparr>content = ''abc'', modTime = 5, readable = False, removable = True\<rparr>,
      ''/a/w'' \<mapsto> \<lparr>content = ''abc'', modTime = 40, readable = True, removable = True\<rparr>]"

text \<open>
  Two pairs of equal files in \<^verbatim>\<open>/a\<close>, of three and of four bytes, met in the order
  \<^verbatim>\<open>x\<close>, \<^verbatim>\<open>z\<close>, \<^verbatim>\<open>y\<close>, \<^verbatim>\<open>w\<close>.
\<close>

definition walk_W :: "string \<Rightarrow> (path \<times> (error + FileInfo)) list \<times> error option" where
  "walk_W root =
     ([(''/a'', dir), (''/a/x'', reg 3), (''/a/z'', reg 4), (''/a/y'', reg 3), (''/a/w'', reg 4)],
      None)"

definition env_W :: env where
  "env_W = env_A\<lparr>Walk := walk_W\<rparr>"

definition fs_W :: filesystem where
  "fs_W =
     [''/a/x'' \<mapsto> \<lparr>content = ''abc'', modTime = 10, readable = True, removable = True\<rparr>,
      ''/a/y'' \<mapsto> \<lparr>content = ''abc'', modTime = 20, readable = True, removable = True\<rparr>,
      ''/a/z'' \<mapsto> \<lparr>content = ''abcd'', modTime = 30, readable = True, removable = True\<rparr>,
      ''/a/w'' \<mapsto> \<lparr>content = ''abcd'', modTime = 5, readable = True, removable = True\<rparr>]"

text \<open>
  The directory \<^verbatim>\<open>/a\<close> with \<^verbatim>\<open>x\<close>, \<^verbatim>\<open>y\<close>, \<^verbatim>\<open>z\<close> as before and two empty files.
\<close>

definition walk_Z :: "string \<Rightarrow> (path \<times> (error + FileInfo)) list \<times> error option" where
  "walk_Z root =
     ([(''/a'', dir), (''/a/x'', reg 3), (''/a/e1'', reg 0), (''/a/y'', reg 3),
       (''/a/e2'', reg 0), (''/a/z'', reg 4)], None)"

definition env_Z :: env where
  "env_Z = env_A\<lparr>Walk := walk_Z\<rparr>"

text \<open>
  Thirteen files with the same three bytes in \<^verbatim>\<open>/g\<close>, met in the order \<^verbatim>\<open>a\<close> to \<^verbatim>\<open>m\<close>;
  \<^verbatim>\<open>/g/b\<close> is newer than the others, which all have the same modification time. The
  platform sorts with the library's \<^verbatim>\<open>sort.Slice\<close>.
\<close>

definition walk_G :: "string \<Rightarrow> (path \<times> (error + FileInfo)) list \<times> error option" where
  "walk_G root =
     ([(''/g'', dir), (''/g/a'', reg 3), (''/g/b'', reg 3), (''/g/c'', reg 3), (''/g/d'', reg 3),
       (''/g/e'', reg 3), (''/g/f'', reg 3), (''/g/g'', reg 3), (''/g/h'', reg 3),
       (''/g/i'', reg 3), (''/g/j'', reg 3), (''/g/k'', reg 3), (''/g/l'', reg 3),
       (''/g/m'', reg 3)], None)"

definition env_G :: "(64 word \<Rightarrow> 64 word) \<Rightarrow> env" where
  "env_G Next = env_A\<lparr>Walk := walk_G, sort_Slice := Slice Next\<rparr>"

definition abc_from :: "int \<Rightarrow> regfile" where
  "abc_from t = \<lparr>content = ''abc'', modTime = t, readable = True, removable = True\<rparr>"

definition fs_G :: filesystem where
  "fs_G =
     [''/g/a'' \<mapsto> abc_from 10, ''/g/b'' \<mapsto> abc_from 20, ''/g/c'' \<mapsto> abc_from 10,
      ''/g/d'' \<mapsto> abc_from 10, ''/g/e'' \<mapsto> abc_from 10, ''/g/f'' \<mapsto> abc_from 10,
      ''/g/g'' \<mapsto> abc_from 10, ''/g/h'' \<mapsto> abc_from 10, ''/g/i'' \<mapsto> abc_from 10,
      ''/g/j'' \<mapsto> abc_from 10, ''/g/k'' \<mapsto> abc_from 10, ''/g/l'' \<mapsto> abc_from 10,
      ''/g/m'' \<mapsto> abc_from 10]"

definition flags_G :: flags where
  "flags_G = \<lparr>partitions = ''/g'', dryRun = True, confirm = False, verbose = False\<rparr>"

definition files_G :: "path list" where
  "files_G =
     [''/g/a'', ''/g/b'', ''/g/c'', ''/g/d'', ''/g/e'', ''/g/f'', ''/g/g'', ''/g/h'', ''/g/i'',
      ''/g/j'', ''/g/k'', ''/g/l'', ''/g/m'']"

text \<open>Unfolding a concrete run.\<close>

lemmas run_defs =
  main_def scan_def hash_all_def range_map_def fileHash_def
  potentialDuplicates_def process_group_def process_duplicate_def remove_duplicate_def
  emit_def Scanln_def Stat_def Remove_def lessFunc_def insertionSort_def Let_def
  demo_digest_def reg_def dir_def

section \<open>The views, event by event\<close>

lemma removals_Nil [simp]: "removals [] = []"
  by (simp add: removals_def map_filter_simps)

lemma removals_Cons [simp]:
  "removals (ev # tr) = (case ev of CallRemove p \<Rightarrow> [p] | _ \<Rightarrow> []) @ removals tr"
  by (cases ev) (simp_all add: removals_def map_filter_simps)

lemma removals_append [simp]: "removals (xs @ ys) = removals xs @ removals ys"
  by (induction xs) simp_all

lemma hashed_Nil [simp]: "hashed [] = []"
  by (simp add: hashed_def map_filter_simps)

lemma hashed_Cons [simp]:
  "hashed (ev # tr) = (case ev of CallFileHash p \<Rightarrow> [p] | _ \<Rightarrow> []) @ hashed tr"
  by (cases ev) (simp_all add: hashed_def map_filter_simps)

lemma hashed_append [simp]: "hashed (xs @ ys) = hashed xs @ hashed ys"
  by (induction xs) simp_all

lemma reported_Nil [simp]: "reported [] = []"
  by (simp add: reported_def map_filter_simps)

lemma reported_Cons [simp]:
  "reported (ev # tr) = (case ev of PrintDuplicate p \<Rightarrow> [p] | _ \<Rightarrow> []) @ reported tr"
  by (cases ev) (simp_all add: reported_def map_filter_simps)

lemma reported_append [simp]: "reported (xs @ ys) = reported xs @ reported ys"
  by (induction xs) simp_all

lemma keepers_Nil [simp]: "keepers [] = []"
  by (simp add: keepers_def map_filter_simps)

lemma keepers_Cons [simp]:
  "keepers (ev # tr) = (case ev of PrintKeeper p \<Rightarrow> [p] | _ \<Rightarrow> []) @ keepers tr"
  by (cases ev) (simp_all add: keepers_def map_filter_simps)

lemma keepers_append [simp]: "keepers (xs @ ys) = keepers xs @ keepers ys"
  by (induction xs) simp_all

lemma prompted_Nil [simp]: "prompted [] = []"
  by (simp add: prompted_def map_filter_simps)

lemma prompted_Cons [simp]:
  "prompted (ev # tr) = (case ev of PrintPrompt p \<Rightarrow> [p] | _ \<Rightarrow> []) @ prompted tr"
  by (cases ev) (simp_all add: prompted_def map_filter_simps)

lemma prompted_append [simp]: "prompted (xs @ ys) = prompted xs @ prompted ys"
  by (induction xs) simp_all

lemma totals_Nil [simp]: "totals [] = []"
  by (simp add: totals_def)

lemma totals_Cons [simp]:
  "totals (ev # tr) = (case ev of PrintSummary tf _ _ \<Rightarrow> [tf] | _ \<Rightarrow> []) @ totals tr"
  by (cases ev) (simp_all add: totals_def)

lemma totals_append [simp]: "totals (xs @ ys) = totals xs @ totals ys"
  by (induction xs) simp_all

lemma early_views:
  assumes "list_all early tr"
  shows "removals tr = []" and "reported tr = []" and "keepers tr = []" and "prompted tr = []"
proof -
  have "removals tr = [] \<and> reported tr = [] \<and> keepers tr = [] \<and> prompted tr = []"
    using assms
  proof (induction tr)
    case Nil
    show ?case by simp
  next
    case (Cons ev tr)
    then show ?case by (cases ev) simp_all
  qed
  then show "removals tr = []" and "reported tr = []" and "keepers tr = []"
    and "prompted tr = []" by simp_all
qed

section \<open>The scan and the hashing only log and hash\<close>

lemma scanning_early: "scanning ev \<Longrightarrow> early ev"
  by (cases ev) simp_all

lemma scanning_walkFn: "list_all scanning (snd acc) \<Longrightarrow> list_all scanning (snd (walkFn acc v))"
  by (cases "(acc, v)" rule: walkFn.cases) auto

lemma scanning_foldl_walkFn:
  "list_all scanning (snd acc) \<Longrightarrow> list_all scanning (snd (foldl walkFn acc vs))"
  by (induction vs arbitrary: acc) (simp_all add: scanning_walkFn)

lemma scanning_scan_partition:
  assumes "list_all scanning (snd acc)"
  shows "list_all scanning (snd (scan_partition e fl acc root))"
proof (cases acc)
  case (Pair sizeMap tr)
  define tr1 where "tr1 = (if verbose fl then tr @ [LogScanning root] else tr)"
  obtain sm tr2 where w: "foldl walkFn (sizeMap, tr1) (fst (Walk e root)) = (sm, tr2)"
    by (cases "foldl walkFn (sizeMap, tr1) (fst (Walk e root))")
  have "list_all scanning tr1"
    using assms Pair by (simp add: tr1_def)
  then have "list_all scanning tr2"
    using scanning_foldl_walkFn [of "(sizeMap, tr1)" "fst (Walk e root)"] w by simp
  then show ?thesis
    using Pair w by (simp add: tr1_def [symmetric] split: option.splits)
qed

lemma scanning_foldl_scan_partition:
  "list_all scanning (snd acc) \<Longrightarrow>
   list_all scanning (snd (foldl (scan_partition e fl) acc roots))"
  by (induction roots arbitrary: acc) (simp_all add: scanning_scan_partition)

lemma scanning_scan: "list_all scanning (snd (scan e fl))"
  by (simp add: scan_def scanning_foldl_scan_partition)

lemma early_scan: "list_all early (snd (scan e fl))"
  using scanning_scan [of e fl] by (auto simp: list_all_iff intro: scanning_early)

lemma early_hash_file:
  "list_all early (snd (snd acc)) \<Longrightarrow> list_all early (snd (snd (hash_file e fsys acc p)))"
  by (cases acc) (auto split: sum.splits)

lemma early_foldl_hash_file:
  "list_all early (snd (snd acc)) \<Longrightarrow>
   list_all early (snd (snd (foldl (hash_file e fsys) acc ps)))"
  by (induction ps arbitrary: acc) (simp_all add: early_hash_file)

lemma early_hash_bucket:
  "list_all early (snd (snd acc)) \<Longrightarrow>
   list_all early (snd (snd (hash_bucket e fl fsys acc b)))"
  by (cases acc; cases b) (simp add: early_foldl_hash_file)

lemma early_foldl_hash_bucket:
  "list_all early (snd (snd acc)) \<Longrightarrow>
   list_all early (snd (snd (foldl (hash_bucket e fl fsys) acc bs)))"
  by (induction bs arbitrary: acc) (simp_all add: early_hash_bucket)

lemma early_hash_all:
  "list_all early tr \<Longrightarrow> list_all early (snd (snd (hash_all e fl fsys sizeMap tr)))"
  by (simp add: hash_all_def early_foldl_hash_bucket)

lemma early_before_groups:
  "list_all early
     (snd (snd (hash_all e fl fsys (fst (scan e fl))
        (if verbose fl
         then (if verbose fl then snd (scan e fl) @ [LogScanned (length (fst (scan e fl)))]
               else snd (scan e fl)) @ [LogPotential (potentialDuplicates (fst (scan e fl)))]
         else (if verbose fl then snd (scan e fl) @ [LogScanned (length (fst (scan e fl)))]
               else snd (scan e fl))))))"
  by (rule early_hash_all) (simp add: early_scan)

section \<open>Dry run\<close>

lemma dry_process_duplicate:
  assumes "dryRun fl"
  shows "fs (process_duplicate fl dup s) = fs s"
    and "removals (trace (process_duplicate fl dup s)) = removals (trace s)"
  using assms by (auto simp: process_duplicate_def emit_def Let_def split: sum.splits)

lemma dry_process_duplicates:
  assumes "dryRun fl"
  shows "fs (process_duplicates fl dups s) = fs s
       \<and> removals (trace (process_duplicates fl dups s)) = removals (trace s)"
  using assms
  by (induction dups arbitrary: s) (simp_all add: Let_def dry_process_duplicate)

lemma dry_process_group:
  assumes "dryRun fl"
  shows "fs (process_group e fl g s) = fs s
       \<and> removals (trace (process_group e fl g s)) = removals (trace s)"
  using assms
  by (auto simp: process_group_def dry_process_duplicates emit_def
      split: option.splits list.splits)

lemma dry_process_groups:
  assumes "dryRun fl"
  shows "fs (process_groups e fl gs s) = fs s
       \<and> removals (trace (process_groups e fl gs s)) = removals (trace s)"
  using assms
  by (induction gs arbitrary: s) (simp_all add: Let_def dry_process_group)

text \<open>
  C1. With \<^verbatim>\<open>--dry-run\<close>, whatever the other flags, the input, the files and the
  library do, \<^verbatim>\<open>os.Remove\<close> is never called and the file system after the run is the
  file system before it. This holds for runs that end in the fatal error or in a panic
  as well.
\<close>

theorem dry_run_never_deletes:
  assumes "dryRun fl"
  shows "final_fs (main e fl fs0 input) = fs0 \<and> removals (events (main e fl fs0 input)) = []"
  using assms early_views(1) [OF early_before_groups, of e fl fs0]
  by (simp add: main_def Let_def dry_process_groups)

text \<open>
  The run over \<^verbatim>\<open>/a\<close> with \<^verbatim>\<open>--dry-run --confirm\<close> and a waiting answer \<^verbatim>\<open>y\<close>: the
  duplicate \<^verbatim>\<open>/a/y\<close> is reported, nothing is removed.
\<close>

theorem dry_run_never_deletes_witness:
  "dryRun (flags_A\<lparr>dryRun := True, confirm := True\<rparr>)
   \<and> final_fs (main env_A (flags_A\<lparr>dryRun := True, confirm := True\<rparr>) fs_A [''y'']) = fs_A
   \<and> removals (events (main env_A (flags_A\<lparr>dryRun := True, confirm := True\<rparr>) fs_A [''y''])) = []
   \<and> reported (events (main env_A (flags_A\<lparr>dryRun := True, confirm := True\<rparr>) fs_A [''y'']))
       = [''/a/y'']"
proof -
  have d: "dryRun (flags_A\<lparr>dryRun := True, confirm := True\<rparr>)"
    by simp
  have r: "reported (events (main env_A (flags_A\<lparr>dryRun := True, confirm := True\<rparr>) fs_A [''y'']))
       = [''/a/y'']"
    by (simp add: run_defs env_A_def flags_A_def fs_A_def walk_A_def)
  show ?thesis
    using d r dry_run_never_deletes [OF d, of env_A fs_A "[''y'']"] by simp
qed

section \<open>Insertion sort keeps the contract\<close>


lemma strict_weak_asym:
  "strict_weak_on A lt \<Longrightarrow> x \<in> A \<Longrightarrow> y \<in> A \<Longrightarrow> lt x y = Some True \<Longrightarrow> lt y x = Some False"
  unfolding strict_weak_on_def by blast

lemma strict_weak_trans:
  "strict_weak_on A lt \<Longrightarrow> x \<in> A \<Longrightarrow> y \<in> A \<Longrightarrow> z \<in> A \<Longrightarrow>
   lt x y = Some False \<Longrightarrow> lt y z = Some False \<Longrightarrow> lt x z = Some False"
  unfolding strict_weak_on_def by blast

lemma insert_back_None:
  "insert_back lt x rs = None \<Longrightarrow> \<exists>y\<in>set rs. lt x y = None"
  by (induction rs) (auto split: option.splits bool.splits)

lemma insert_back_mset:
  "insert_back lt x rs = Some rs' \<Longrightarrow> mset rs' = add_mset x (mset rs)"
  by (induction rs arbitrary: rs') (auto split: option.splits bool.splits)

lemma insert_back_sorted:
  assumes "strict_weak_on A lt" "x \<in> A" "set rs \<subseteq> A"
    and "sorted_wrt (\<lambda>u v. lt u v = Some False) rs"
    and "insert_back lt x rs = Some rs'"
  shows "sorted_wrt (\<lambda>u v. lt u v = Some False) rs'"
  using assms(3-5)
proof (induction rs arbitrary: rs')
  case Nil
  then show ?case by auto
next
  case (Cons y rs)
  have yA: "y \<in> A" and rsA: "set rs \<subseteq> A"
    using Cons.prems(1) by auto
  show ?case
  proof (cases "lt x y")
    case None
    then show ?thesis using Cons.prems(3) by simp
  next
    case (Some b)
    show ?thesis
    proof (cases b)
      case True
      then obtain rs0 where r0: "insert_back lt x rs = Some rs0" and eq: "rs' = y # rs0"
        using Cons.prems(3) Some by auto
      have s0: "sorted_wrt (\<lambda>u v. lt u v = Some False) rs0"
        using Cons.IH [OF rsA _ r0] Cons.prems(2) by simp
      have "set rs0 = insert x (set rs)"
        using insert_back_mset [OF r0] by (metis set_mset_add_mset_insert set_mset_mset)
      moreover have "lt y x = Some False"
        using strict_weak_asym [OF assms(1) \<open>x \<in> A\<close> yA] Some True by simp
      moreover have "\<forall>v\<in>set rs. lt y v = Some False"
        using Cons.prems(2) by simp
      ultimately show ?thesis
        using s0 eq by simp
    next
      case False
      then have eq: "rs' = x # y # rs"
        using Cons.prems(3) Some by simp
      have "\<forall>v\<in>set rs. lt x v = Some False"
      proof
        fix v assume v: "v \<in> set rs"
        then have "lt y v = Some False" using Cons.prems(2) by simp
        moreover have "lt x y = Some False" using Some False by simp
        moreover have "v \<in> A" using v rsA by auto
        ultimately show "lt x v = Some False"
          using strict_weak_trans [OF assms(1) \<open>x \<in> A\<close> yA] by blast
      qed
      then show ?thesis
        using eq Cons.prems(2) Some False by simp
    qed
  qed
qed

lemma insertion_loop_None:
  "insertion_loop lt rs xs = None \<Longrightarrow> \<exists>x\<in>set rs \<union> set xs. \<exists>y\<in>set rs \<union> set xs. lt x y = None"
proof (induction xs arbitrary: rs)
  case Nil
  then show ?case by simp
next
  case (Cons x xs)
  show ?case
  proof (cases "insert_back lt x rs")
    case None
    then show ?thesis using insert_back_None [OF None] by auto
  next
    case (Some rs')
    then have "insertion_loop lt rs' xs = None"
      using Cons.prems by simp
    from Cons.IH [OF this] have "\<exists>a\<in>set rs' \<union> set xs. \<exists>b\<in>set rs' \<union> set xs. lt a b = None" .
    moreover have "set rs' = insert x (set rs)"
      using insert_back_mset [OF Some] by (metis set_mset_add_mset_insert set_mset_mset)
    ultimately show ?thesis by auto
  qed
qed

lemma insertion_loop_mset:
  "insertion_loop lt rs xs = Some ys \<Longrightarrow> mset ys = mset rs + mset xs"
proof (induction xs arbitrary: rs)
  case Nil
  then show ?case by auto
next
  case (Cons x xs)
  then obtain rs' where r: "insert_back lt x rs = Some rs'" and l: "insertion_loop lt rs' xs = Some ys"
    by (auto split: option.splits)
  show ?case
    using Cons.IH [OF l] insert_back_mset [OF r] by simp
qed

lemma insertion_loop_sorted:
  assumes "strict_weak_on A lt"
  shows "set rs \<subseteq> A \<Longrightarrow> set xs \<subseteq> A \<Longrightarrow> sorted_wrt (\<lambda>u v. lt u v = Some False) rs \<Longrightarrow>
         insertion_loop lt rs xs = Some ys \<Longrightarrow> sorted_wrt (\<lambda>a b. lt b a = Some False) ys"
proof (induction xs arbitrary: rs)
  case Nil
  then show ?case by (auto simp: sorted_wrt_rev)
next
  case (Cons x xs)
  then obtain rs' where r: "insert_back lt x rs = Some rs'" and l: "insertion_loop lt rs' xs = Some ys"
    by (auto split: option.splits)
  have xA: "x \<in> A" using Cons.prems(2) by simp
  have s: "sorted_wrt (\<lambda>u v. lt u v = Some False) rs'"
    using insert_back_sorted [OF assms xA Cons.prems(1) Cons.prems(3) r] .
  have "set rs' = insert x (set rs)"
    using insert_back_mset [OF r] by (metis set_mset_add_mset_insert set_mset_mset)
  then have "set rs' \<subseteq> A" using xA Cons.prems(1) by simp
  from Cons.IH [OF this _ s l] Cons.prems(2) show ?case by simp
qed

lemma insertionSort_contract: "sort_Slice_contract insertionSort"
  unfolding sort_Slice_contract_def
proof (intro allI)
  fix lt :: "'a \<Rightarrow> 'a \<Rightarrow> bool option" and xs
  show "case insertionSort lt xs of
          None \<Rightarrow> \<exists>x\<in>set xs. \<exists>y\<in>set xs. lt x y = None
        | Some ys \<Rightarrow> mset ys = mset xs \<and>
            (strict_weak_on (set xs) lt \<longrightarrow> sorted_wrt (\<lambda>a b. lt b a = Some False) ys)"
  proof (cases "insertionSort lt xs")
    case None
    then show ?thesis
      using insertion_loop_None [of lt "[]" xs] by (simp add: insertionSort_def)
  next
    case (Some ys)
    then have l: "insertion_loop lt [] xs = Some ys" by (simp add: insertionSort_def)
    have "mset ys = mset xs" using insertion_loop_mset [OF l] by simp
    moreover have "sorted_wrt (\<lambda>a b. lt b a = Some False) ys" if "strict_weak_on (set xs) lt"
      using insertion_loop_sorted [OF that _ _ _ l] by simp
    ultimately show ?thesis using Some by simp
  qed
qed


section \<open>The comparison function orders by volume name, then by modification time\<close>

lemma lessFunc_present:
  assumes "fsys p \<noteq> None" "fsys q \<noteq> None"
  shows "lessFunc e fsys p q =
     Some (VolumeName e p < VolumeName e q
           \<or> (VolumeName e p = VolumeName e q \<and> mtime fsys p < mtime fsys q))"
  using assms by (auto simp: lessFunc_def Stat_def mtime_def Let_def)

lemma lessFunc_not_less:
  assumes "fsys p \<noteq> None" "fsys q \<noteq> None"
  shows "lessFunc e fsys q p = Some False \<longleftrightarrow> ordered_before e fsys p q"
  using assms by (auto simp: lessFunc_present ordered_before_def)

lemma lessFunc_strict_weak:
  assumes "\<forall>p\<in>A. fsys p \<noteq> None"
  shows "strict_weak_on A (lessFunc e fsys)"
  unfolding strict_weak_on_def
proof (intro conjI ballI impI)
  fix x y assume "x \<in> A" "y \<in> A"
  then show "lessFunc e fsys x y \<noteq> None"
    using assms by (simp add: lessFunc_present)
next
  fix x y assume "x \<in> A" "y \<in> A" "lessFunc e fsys x y = Some True"
  then show "lessFunc e fsys y x = Some False"
    using assms by (auto simp: lessFunc_present)
next
  fix x y z assume "x \<in> A" "y \<in> A" "z \<in> A"
    and "lessFunc e fsys x y = Some False" "lessFunc e fsys y z = Some False"
  then show "lessFunc e fsys x z = Some False"
    using assms by (auto simp: lessFunc_present)
qed

lemma contract_Some:
  assumes "sort_Slice_contract srt" "srt lt xs = Some ys"
  shows "mset ys = mset xs"
    and "strict_weak_on (set xs) lt \<Longrightarrow> sorted_wrt (\<lambda>a b. lt b a = Some False) ys"
proof -
  have "case srt lt xs of
          None \<Rightarrow> \<exists>x\<in>set xs. \<exists>y\<in>set xs. lt x y = None
        | Some ys \<Rightarrow> mset ys = mset xs \<and>
            (strict_weak_on (set xs) lt \<longrightarrow> sorted_wrt (\<lambda>a b. lt b a = Some False) ys)"
    using assms(1) unfolding sort_Slice_contract_def by blast
  then have c: "mset ys = mset xs \<and>
            (strict_weak_on (set xs) lt \<longrightarrow> sorted_wrt (\<lambda>a b. lt b a = Some False) ys)"
    using assms(2) by simp
  show "mset ys = mset xs" using c by simp
  show "sorted_wrt (\<lambda>a b. lt b a = Some False) ys" if "strict_weak_on (set xs) lt"
    using c that by simp
qed

lemma contract_None:
  assumes "sort_Slice_contract srt" "srt lt xs = None"
  shows "\<exists>x\<in>set xs. \<exists>y\<in>set xs. lt x y = None"
proof -
  have "case srt lt xs of
          None \<Rightarrow> \<exists>x\<in>set xs. \<exists>y\<in>set xs. lt x y = None
        | Some ys \<Rightarrow> mset ys = mset xs \<and>
            (strict_weak_on (set xs) lt \<longrightarrow> sorted_wrt (\<lambda>a b. lt b a = Some False) ys)"
    using assms(1) unfolding sort_Slice_contract_def by blast
  then show ?thesis using assms(2) by simp
qed

lemma sort_present_group:
  assumes "sort_Slice_contract (sort_Slice e)" and "\<forall>p\<in>set files. fsys p \<noteq> None"
  shows "\<exists>ys. sort_Slice e (lessFunc e fsys) files = Some ys \<and> mset ys = mset files
           \<and> sorted_wrt (ordered_before e fsys) ys"
proof (cases "sort_Slice e (lessFunc e fsys) files")
  case None
  from contract_None [OF assms(1) None] assms(2) show ?thesis
    by (auto simp: lessFunc_present)
next
  case (Some ys)
  have m: "mset ys = mset files"
    using contract_Some(1) [OF assms(1) Some] .
  then have sub: "set ys = set files"
    by (metis set_mset_mset)
  have "sorted_wrt (\<lambda>a b. lessFunc e fsys b a = Some False) ys"
    using contract_Some(2) [OF assms(1) Some] lessFunc_strict_weak [of "set files" fsys e] assms(2)
    by simp
  then have "sorted_wrt (ordered_before e fsys) ys"
  proof (rule sorted_wrt_mono_rel [rotated])
    fix a b assume "a \<in> set ys" "b \<in> set ys" "lessFunc e fsys b a = Some False"
    then show "ordered_before e fsys a b"
      using lessFunc_not_less [of fsys a b e] assms(2) sub by simp
  qed
  then show ?thesis using Some m by simp
qed




lemma keepers_process_duplicate:
  "keepers (trace (process_duplicate fl dup s)) = keepers (trace s)"
  by (auto simp: process_duplicate_def remove_duplicate_def emit_def Scanln_def Let_def
      split: sum.splits option.splits list.splits)

lemma keepers_process_duplicates:
  "keepers (trace (process_duplicates fl dups s)) = keepers (trace s)"
  by (induction dups arbitrary: s) (simp_all add: Let_def keepers_process_duplicate)

text \<open>
  C3, as amended. When \<^verbatim>\<open>os.Stat\<close> succeeds for every member of a digest group, the
  group reaches the deletion stage ordered by volume name ascending (byte-wise), and by
  modification time ascending among members of one volume; the keeper is the first
  member of that order, so no member precedes it strictly. Where two members agree on both
  keys the order is the one \<^verbatim>\<open>sort.Slice\<close> leaves them in, which its contract does not fix.
\<close>

theorem group_sorted_by_volume_then_mtime:
  assumes "sort_Slice_contract (sort_Slice e)"
    and "\<forall>p\<in>set files. fs s p \<noteq> None"
    and "2 \<le> length files" and "8 \<le> length h"
  shows "\<exists>k ds. sort_Slice e (lessFunc e (fs s)) files = Some (k # ds)
           \<and> mset (k # ds) = mset files
           \<and> sorted_wrt (ordered_before e (fs s)) (k # ds)
           \<and> (\<forall>d\<in>set ds. ordered_before e (fs s) k d)
           \<and> keepers (trace (process_group e fl (h, files) s)) = keepers (trace s) @ [k]"
proof -
  obtain ys where ys: "sort_Slice e (lessFunc e (fs s)) files = Some ys"
    and m: "mset ys = mset files" and srt: "sorted_wrt (ordered_before e (fs s)) ys"
    using sort_present_group [OF assms(1,2)] by blast
  have "length ys = length files"
    using m by (metis size_mset)
  then obtain k ds where kd: "ys = k # ds"
    using assms(3) by (cases ys) auto
  have "keepers (trace (process_group e fl (h, files) s)) = keepers (trace s) @ [k]"
    using assms(3,4) ys kd
    by (simp add: process_group_def keepers_process_duplicates emit_def)
  then show ?thesis
    using ys m srt kd by auto
qed





text \<open>
  Three files on two volumes: \<^verbatim>\<open>C:/c\<close> comes first (volume \<^verbatim>\<open>C:\<close>, older than
  \<^verbatim>\<open>C:/b\<close>) and is the keeper, \<^verbatim>\<open>D:/a\<close> comes last although it is the oldest.
\<close>

theorem group_sorted_by_volume_then_mtime_witness:
  "sort_Slice_contract (sort_Slice env_V)
   \<and> list_all (\<lambda>p. fs state_V p \<noteq> None) [''D:/a'', ''C:/b'', ''C:/c'']
   \<and> sort_Slice env_V (lessFunc env_V (fs state_V)) [''D:/a'', ''C:/b'', ''C:/c'']
       = Some [''C:/c'', ''C:/b'', ''D:/a'']
   \<and> keepers (trace (process_group env_V flags_A
         (demo_digest ''hi'', [''D:/a'', ''C:/b'', ''C:/c'']) state_V)) = [''C:/c'']"
proof -
  have c: "sort_Slice_contract (sort_Slice env_V)"
    by (simp add: env_V_def env_A_def insertionSort_contract)
  have p: "\<forall>p\<in>set [''D:/a'', ''C:/b'', ''C:/c'']. fs state_V p \<noteq> None"
    by (simp add: state_V_def fs_V_def)
  have l: "2 \<le> length [''D:/a'', ''C:/b'', ''C:/c'']" "8 \<le> length (demo_digest ''hi'')"
    by (simp_all add: demo_digest_def)
  have s: "sort_Slice env_V (lessFunc env_V (fs state_V)) [''D:/a'', ''C:/b'', ''C:/c'']
       = Some [''C:/c'', ''C:/b'', ''D:/a'']"
    by (simp add: run_defs env_V_def env_A_def fs_V_def state_V_def)
  from group_sorted_by_volume_then_mtime [OF c p l, of flags_A] s
  have "keepers (trace (process_group env_V flags_A
         (demo_digest ''hi'', [''D:/a'', ''C:/b'', ''C:/c'']) state_V))
        = keepers (trace state_V) @ [''C:/c'']"
    by auto
  then show ?thesis
    using c p s by (simp add: state_V_def)
qed


section \<open>The loop over the duplicates of a group\<close>

lemma Stat_present: "Stat fsys p = Inr info \<Longrightarrow> fsys p \<noteq> None"
  by (auto simp: Stat_def split: option.splits)

lemma Stat_absent: "Stat fsys p = Inl err \<Longrightarrow> fsys p = None"
  by (auto simp: Stat_def split: option.splits)

lemma fs_remove_duplicate [simp]: "fs (remove_duplicate d s) = fst (Remove (fs s) d)"
  by (auto simp: remove_duplicate_def emit_def Let_def split: option.splits)

lemma Remove_le: "fst (Remove fsys d) \<subseteq>\<^sub>m fsys"
  by (auto simp: Remove_def map_le_def split: option.splits)

lemma Remove_other: "p \<noteq> d \<Longrightarrow> fst (Remove fsys d) p = fsys p"
  by (auto simp: Remove_def split: option.splits)

lemma fs_process_duplicate_cases:
  "fs (process_duplicate fl d s) = fs s \<or> fs (process_duplicate fl d s) = fst (Remove (fs s) d)"
  by (auto simp: process_duplicate_def emit_def Scanln_def Let_def
      split: sum.splits list.splits)

lemma fs_process_duplicate_le: "fs (process_duplicate fl d s) \<subseteq>\<^sub>m fs s"
  using fs_process_duplicate_cases [of fl d s] Remove_le [of "fs s" d] by auto

lemma panicked_remove_duplicate [simp]: "panicked (remove_duplicate d s) = panicked s"
  by (auto simp: remove_duplicate_def emit_def Let_def split: option.splits)

lemma panicked_process_duplicate:
  "panicked (process_duplicate fl d s) \<longleftrightarrow> panicked s \<or> fs s d = None"
  by (auto simp: process_duplicate_def emit_def Scanln_def Let_def Stat_def
      split: sum.splits list.splits option.splits)

lemma counted_process_duplicate:
  "duplicateCount (process_duplicate fl d s) = Suc (duplicateCount s)"
  by (auto simp: process_duplicate_def remove_duplicate_def emit_def Scanln_def Let_def
      split: sum.splits list.splits option.splits)

lemma reported_process_duplicate:
  "fs s d \<noteq> None \<Longrightarrow> reported (trace (process_duplicate fl d s)) = reported (trace s) @ [d]"
  by (auto simp: process_duplicate_def remove_duplicate_def emit_def Scanln_def Let_def Stat_def
      split: sum.splits list.splits option.splits)

lemma totalSaved_process_duplicate:
  "fs s d \<noteq> None \<Longrightarrow>
   totalSaved (process_duplicate fl d s) = totalSaved s + size_of (fs s) d"
  by (auto simp: process_duplicate_def remove_duplicate_def emit_def Scanln_def Let_def Stat_def
      size_of_def split: sum.splits list.splits option.splits)

lemma finished_duplicates_present:
  "\<not> panicked (process_duplicates fl dups s) \<Longrightarrow> \<not> panicked s \<and> (\<forall>d\<in>set dups. fs s d \<noteq> None)"
proof (induction dups arbitrary: s)
  case Nil
  then show ?case by simp
next
  case (Cons d dups)
  let ?s1 = "process_duplicate fl d s"
  have np: "\<not> panicked ?s1"
    using Cons.prems by (auto simp: Let_def split: if_splits)
  then have rest: "\<not> panicked (process_duplicates fl dups ?s1)"
    using Cons.prems by (simp add: Let_def)
  have here: "\<not> panicked s \<and> fs s d \<noteq> None"
    using np by (simp add: panicked_process_duplicate)
  have "\<forall>d'\<in>set dups. fs ?s1 d' \<noteq> None"
    using Cons.IH [OF rest] by simp
  then have "\<forall>d'\<in>set dups. fs s d' \<noteq> None"
    using fs_process_duplicate_le [of fl d s] by (auto simp: map_le_def dom_def)
  then show ?case using here by simp
qed

lemma size_of_le:
  assumes "fsys' \<subseteq>\<^sub>m fsys" "fsys' p \<noteq> None"
  shows "size_of fsys' p = size_of fsys p"
  using assms by (auto simp: size_of_def Stat_def map_le_def dom_def split: option.splits)

text \<open>
  What the loop over the duplicates does guarantee. Whatever the mode (dry run,
  confirmation, unconditional deletion) and whatever \<^verbatim>\<open>os.Remove\<close> answers, when the loop
  runs to its end every duplicate is printed on a \<^verbatim>\<open>Duplicate:\<close> line, is counted once
  in \<^verbatim>\<open>duplicateCount\<close>, and has the size \<^verbatim>\<open>os.Stat\<close> reports for it added to
  \<^verbatim>\<open>totalSaved\<close> (an \<^verbatim>\<open>int64\<close> sum). The loop runs to its end exactly when \<^verbatim>\<open>os.Stat\<close>
  succeeds for each duplicate at its turn, so that its size exists.
\<close>

theorem duplicates_counted_in_every_mode:
  assumes "\<not> panicked (process_duplicates fl dups s)"
  shows "duplicateCount (process_duplicates fl dups s) = duplicateCount s + length dups
       \<and> reported (trace (process_duplicates fl dups s)) = reported (trace s) @ dups
       \<and> totalSaved (process_duplicates fl dups s)
           = totalSaved s + sum_list (map (size_of (fs s)) dups)"
  using assms
proof (induction dups arbitrary: s)
  case Nil
  then show ?case by simp
next
  case (Cons d dups)
  let ?s1 = "process_duplicate fl d s"
  have np: "\<not> panicked ?s1"
    using Cons.prems by (auto simp: Let_def split: if_splits)
  then have rest: "\<not> panicked (process_duplicates fl dups ?s1)"
    using Cons.prems by (simp add: Let_def)
  have here: "fs s d \<noteq> None"
    using np by (simp add: panicked_process_duplicate)
  have later: "\<forall>d'\<in>set dups. fs ?s1 d' \<noteq> None"
    using finished_duplicates_present [OF rest] by simp
  have "map (size_of (fs ?s1)) dups = map (size_of (fs s)) dups"
    using later size_of_le [OF fs_process_duplicate_le [of fl d s]] by simp
  then have sums: "sum_list (map (size_of (fs ?s1)) dups) = sum_list (map (size_of (fs s)) dups)"
    by (rule arg_cong)
  show ?case
    using Cons.IH [OF rest] np here
    by (simp add: Let_def counted_process_duplicate reported_process_duplicate
        totalSaved_process_duplicate add.assoc sums)
qed

text \<open>
  Unconditional deletion of \<^verbatim>\<open>/a/y\<close> and \<^verbatim>\<open>/a/z\<close>: removing \<^verbatim>\<open>/a/y\<close> fails and is
  logged, removing \<^verbatim>\<open>/a/z\<close> succeeds; both are reported and counted, three bytes each.
\<close>

theorem duplicates_counted_in_every_mode_witness:
  "\<not> panicked (process_duplicates flags_A [''/a/y'', ''/a/z''] state_C)
   \<and> duplicateCount (process_duplicates flags_A [''/a/y'', ''/a/z''] state_C) = 2
   \<and> reported (trace (process_duplicates flags_A [''/a/y'', ''/a/z''] state_C))
       = [''/a/y'', ''/a/z'']
   \<and> totalSaved (process_duplicates flags_A [''/a/y'', ''/a/z''] state_C) = 6
   \<and> LogErrDelete ''/a/y'' EACCES
       \<in> set (trace (process_duplicates flags_A [''/a/y'', ''/a/z''] state_C))
"
proof -
  have np: "\<not> panicked (process_duplicates flags_A [''/a/y'', ''/a/z''] state_C)"
    by (simp add: run_defs flags_A_def state_C_def fs_C_def)
  have lg: "LogErrDelete ''/a/y'' EACCES
       \<in> set (trace (process_duplicates flags_A [''/a/y'', ''/a/z''] state_C))"
    by (simp add: run_defs flags_A_def state_C_def fs_C_def)
  have sz: "size_of (fs state_C) ''/a/y'' = 3" "size_of (fs state_C) ''/a/z'' = 3"
    by (simp_all add: size_of_def Stat_def state_C_def fs_C_def)
  show ?thesis
    using np lg duplicates_counted_in_every_mode [OF np] sz
    by (simp add: state_C_def)
qed

lemma confirm_step:
  assumes "confirm fl" "\<not> dryRun fl" "fs s d \<noteq> None"
  shows "prompted (trace (process_duplicate fl d s)) = prompted (trace s) @ [d]"
    and "removals (trace (process_duplicate fl d s)) = removals (trace s) @ confirmed [d] (stdin s)"
    and "stdin (process_duplicate fl d s) = tl (stdin s)"
    and "d \<notin> set (confirmed [d] (stdin s)) \<Longrightarrow> fs (process_duplicate fl d s) = fs s"
  using assms
  by (auto simp: process_duplicate_def remove_duplicate_def emit_def Scanln_def Let_def Stat_def
      confirmed_def split: sum.splits list.splits option.splits)

lemma fs_process_duplicate_other:
  "p \<noteq> d \<Longrightarrow> fs (process_duplicate fl d s) p = fs s p"
  using fs_process_duplicate_cases [of fl d s] Remove_other [of p d "fs s"] by auto

lemma confirmed_Cons: "confirmed (d # ds) inp = confirmed [d] inp @ confirmed ds (tl inp)"
  by (simp add: confirmed_def)

text \<open>
  What the confirmation does guarantee. With \<^verbatim>\<open>--confirm\<close> and without \<^verbatim>\<open>--dry-run\<close>,
  when the loop over the duplicates of a group runs to its end: every duplicate is
  prompted for, in order; \<^verbatim>\<open>os.Remove\<close> is called for exactly the duplicates whose
  response is \<^verbatim>\<open>y\<close> or \<^verbatim>\<open>Y\<close>; every duplicate is reported and counted, whatever its
  response; and a path that was not confirmed is in the file system afterwards as it was
  before.
\<close>

theorem confirm_removes_only_on_yes:
  assumes "confirm fl" and "\<not> dryRun fl"
    and "\<not> panicked (process_duplicates fl dups s)"
  shows "prompted (trace (process_duplicates fl dups s)) = prompted (trace s) @ dups
       \<and> removals (trace (process_duplicates fl dups s))
           = removals (trace s) @ confirmed dups (stdin s)
       \<and> reported (trace (process_duplicates fl dups s)) = reported (trace s) @ dups
       \<and> duplicateCount (process_duplicates fl dups s) = duplicateCount s + length dups
       \<and> (\<forall>p. p \<notin> set (confirmed dups (stdin s)) \<longrightarrow>
             fs (process_duplicates fl dups s) p = fs s p)"
  using assms(3)
proof (induction dups arbitrary: s)
  case Nil
  then show ?case by (simp add: confirmed_def)
next
  case (Cons d dups)
  let ?s1 = "process_duplicate fl d s"
  have np: "\<not> panicked ?s1"
    using Cons.prems by (auto simp: Let_def split: if_splits)
  then have rest: "\<not> panicked (process_duplicates fl dups ?s1)"
    using Cons.prems by (simp add: Let_def)
  have here: "fs s d \<noteq> None"
    using np by (simp add: panicked_process_duplicate)
  note step = confirm_step [OF assms(1,2) here]
  note ih = Cons.IH [OF rest]
  have eq: "process_duplicates fl (d # dups) s = process_duplicates fl dups ?s1"
    using np by (simp add: Let_def)
  have frame: "fs (process_duplicates fl dups ?s1) p = fs s p"
    if "p \<notin> set (confirmed (d # dups) (stdin s))" for p
  proof -
    have a: "p \<notin> set (confirmed [d] (stdin s))" and b: "p \<notin> set (confirmed dups (tl (stdin s)))"
      using that by (simp_all add: confirmed_Cons [of d dups])
    have "fs (process_duplicates fl dups ?s1) p = fs ?s1 p"
      using ih b step(3) by simp
    also have "fs ?s1 p = fs s p"
    proof (cases "p = d")
      case True
      then show ?thesis using a step(4) by simp
    next
      case False
      then show ?thesis by (rule fs_process_duplicate_other)
    qed
    finally show ?thesis .
  qed
  show ?case
    unfolding eq using ih step(1,2,3) frame
    by (simp add: confirmed_Cons [of d dups] counted_process_duplicate
        reported_process_duplicate [OF here])
qed


text \<open>
  Three duplicates and the answers \<^verbatim>\<open>n\<close>, \<^verbatim>\<open>Y\<close> and end of input: only \<^verbatim>\<open>/a/z\<close> is
  removed, \<^verbatim>\<open>/a/y\<close> and \<^verbatim>\<open>/a/w\<close> stay, all three are prompted for and counted.
\<close>

theorem confirm_removes_only_on_yes_witness:
  "confirm (flags_A\<lparr>confirm := True\<rparr>) \<and> \<not> dryRun (flags_A\<lparr>confirm := True\<rparr>)
   \<and> \<not> panicked (process_duplicates (flags_A\<lparr>confirm := True\<rparr>)
           [''/a/y'', ''/a/z'', ''/a/w''] state_C)
   \<and> prompted (trace (process_duplicates (flags_A\<lparr>confirm := True\<rparr>)
           [''/a/y'', ''/a/z'', ''/a/w''] state_C)) = [''/a/y'', ''/a/z'', ''/a/w'']
   \<and> removals (trace (process_duplicates (flags_A\<lparr>confirm := True\<rparr>)
           [''/a/y'', ''/a/z'', ''/a/w''] state_C)) = [''/a/z'']
   \<and> duplicateCount (process_duplicates (flags_A\<lparr>confirm := True\<rparr>)
           [''/a/y'', ''/a/z'', ''/a/w''] state_C) = 3
   \<and> fs (process_duplicates (flags_A\<lparr>confirm := True\<rparr>)
           [''/a/y'', ''/a/z'', ''/a/w''] state_C) ''/a/w'' = fs_C ''/a/w''
   \<and> fs (process_duplicates (flags_A\<lparr>confirm := True\<rparr>)
           [''/a/y'', ''/a/z'', ''/a/w''] state_C) ''/a/z'' = None"
proof -
  have c: "confirm (flags_A\<lparr>confirm := True\<rparr>)" and d: "\<not> dryRun (flags_A\<lparr>confirm := True\<rparr>)"
    by (simp_all add: flags_A_def)
  have np: "\<not> panicked (process_duplicates (flags_A\<lparr>confirm := True\<rparr>)
           [''/a/y'', ''/a/z'', ''/a/w''] state_C)"
    by (simp add: run_defs flags_A_def state_C_def fs_C_def)
  have gone: "fs (process_duplicates (flags_A\<lparr>confirm := True\<rparr>)
           [''/a/y'', ''/a/z'', ''/a/w''] state_C) ''/a/z'' = None"
    by (simp add: run_defs flags_A_def state_C_def fs_C_def)
  have yes: "confirmed [''/a/y'', ''/a/z'', ''/a/w''] (stdin state_C) = [''/a/z'']"
    by (simp add: confirmed_def state_C_def)
  show ?thesis
    using c d np gone yes confirm_removes_only_on_yes [OF c d np]
    by (simp add: state_C_def)
qed

section \<open>A path discovered twice\<close>

text \<open>
  C2 fails on the code. With the nested roots \<^verbatim>\<open>/d:/d/s\<close> the only file \<^verbatim>\<open>/d/s/f\<close> is
  in its size bucket twice, so it forms a digest group with itself: it is printed as the
  keeper, and the same path is handed to \<^verbatim>\<open>os.Remove\<close> as the duplicate and is gone
  after the run.
\<close>

theorem keeper_removed_when_discovered_twice:
  "fs_N ''/d/s/f'' \<noteq> None
   \<and> keepers (events (main env_N flags_N fs_N [])) = [''/d/s/f'']
   \<and> removals (events (main env_N flags_N fs_N [])) = [''/d/s/f'']
   \<and> final_fs (main env_N flags_N fs_N []) ''/d/s/f'' = None
   \<and> exit (main env_N flags_N fs_N []) = Exit0"
  by (simp add: run_defs env_N_def env_A_def flags_N_def fs_N_def walk_N_def)

text \<open>
  C6 fails on the code, by the same defect. In the same tree under \<^verbatim>\<open>--dry-run\<close> the
  file \<^verbatim>\<open>/d/s/f\<close> shares its size with no other file, yet it is hashed (twice) and is
  reported as keeper and as duplicate.
\<close>

theorem lone_file_hashed_and_reported:
  "fst (scan env_N (flags_N\<lparr>dryRun := True\<rparr>)) = [(5, [''/d/s/f'', ''/d/s/f''])]
   \<and> hashed (events (main env_N (flags_N\<lparr>dryRun := True\<rparr>) fs_N []))
       = [''/d/s/f'', ''/d/s/f'']
   \<and> keepers (events (main env_N (flags_N\<lparr>dryRun := True\<rparr>) fs_N [])) = [''/d/s/f'']
   \<and> reported (events (main env_N (flags_N\<lparr>dryRun := True\<rparr>) fs_N [])) = [''/d/s/f'']"
  by (simp add: run_defs env_N_def env_A_def flags_N_def fs_N_def walk_N_def)

section \<open>A failed \<^verbatim>\<open>os.Stat\<close>\<close>

text \<open>
  C4 fails on the code. Both \<^verbatim>\<open>os.Stat\<close> calls drop the error and use the \<^verbatim>\<open>FileInfo\<close>,
  which is nil after an error. With the roots \<^verbatim>\<open>/d:/d/s:/d/s\<close> the file \<^verbatim>\<open>/d/s/f\<close> is
  in its group three times: the first duplicate is removed, \<^verbatim>\<open>os.Stat\<close> of the second
  fails, and the run ends in a panic before the summary. In the comparison function a
  path that \<^verbatim>\<open>os.Stat\<close> cannot read makes the comparison, and with it the ordering of
  its group, panic as well.
\<close>

theorem failed_stat_panics:
  "exit (main env_N (flags_N\<lparr>partitions := ''/d:/d/s:/d/s''\<rparr>) fs_N []) = Exit2
   \<and> events (main env_N (flags_N\<lparr>partitions := ''/d:/d/s:/d/s''\<rparr>) fs_N [])
       = [CallFileHash ''/d/s/f'', CallFileHash ''/d/s/f'', CallFileHash ''/d/s/f'',
          PrintGroup ''hello000'', PrintKeeper ''/d/s/f'', PrintDuplicate ''/d/s/f'',
          CallRemove ''/d/s/f'', PrintDeleted ''/d/s/f'']
   \<and> Stat fs_N ''/d/s/gone'' = Inl ENOENT
   \<and> lessFunc env_N fs_N ''/d/s/gone'' ''/d/s/f'' = None
   \<and> panicked (process_group env_N (flags_N\<lparr>dryRun := True\<rparr>)
        (demo_digest ''hello'', [''/d/s/f'', ''/d/s/gone''])
        \<lparr>fs = fs_N, stdin = [], trace = [], duplicateCount = 0, totalSaved = 0,
         panicked = False\<rparr>)"
  by (simp add: run_defs env_N_def env_A_def flags_N_def fs_N_def walk_N_def)

text \<open>
  C8 fails on the code, by the same defect. With \<^verbatim>\<open>--confirm\<close>, the roots
  \<^verbatim>\<open>/d:/d/s:/d/s\<close> and the answers \<^verbatim>\<open>y\<close>, \<^verbatim>\<open>y\<close>, the group of \<^verbatim>\<open>/d/s/f\<close> has two
  duplicates. The first is prompted for and removed; for the second \<^verbatim>\<open>os.Stat\<close> fails and
  the run panics before the prompt: the second duplicate is never prompted for, its
  answer is never read, and the run ends without a summary.
\<close>

theorem second_duplicate_never_prompted:
  "hashed (events (main env_N
       (flags_N\<lparr>partitions := ''/d:/d/s:/d/s'', confirm := True\<rparr>) fs_N [''y'', ''y'']))
     = [''/d/s/f'', ''/d/s/f'', ''/d/s/f'']
   \<and> events (main env_N
       (flags_N\<lparr>partitions := ''/d:/d/s:/d/s'', confirm := True\<rparr>) fs_N [''y'', ''y''])
     = [CallFileHash ''/d/s/f'', CallFileHash ''/d/s/f'', CallFileHash ''/d/s/f'',
        PrintGroup ''hello000'', PrintKeeper ''/d/s/f'', PrintDuplicate ''/d/s/f'',
        PrintPrompt ''/d/s/f'', CallRemove ''/d/s/f'', PrintDeleted ''/d/s/f'']
   \<and> prompted (events (main env_N
       (flags_N\<lparr>partitions := ''/d:/d/s:/d/s'', confirm := True\<rparr>) fs_N [''y'', ''y'']))
     = [''/d/s/f'']
   \<and> duplicateCount (after_groups env_N
       (flags_N\<lparr>partitions := ''/d:/d/s:/d/s'', confirm := True\<rparr>) fs_N [''y'', ''y''])
     = 2
   \<and> stdin (after_groups env_N
       (flags_N\<lparr>partitions := ''/d:/d/s:/d/s'', confirm := True\<rparr>) fs_N [''y'', ''y''])
     = [''y'']
   \<and> exit (main env_N
       (flags_N\<lparr>partitions := ''/d:/d/s:/d/s'', confirm := True\<rparr>) fs_N [''y'', ''y''])
     = Exit2"
  by (simp add: after_groups_def after_hashing_def run_defs env_N_def env_A_def flags_N_def
      fs_N_def walk_N_def)

text \<open>
  C9 fails on the code, by the same defect. With the roots \<^verbatim>\<open>/d:/d/s:/d/s\<close> the group
  of \<^verbatim>\<open>/d/s/f\<close> has two duplicates and both are counted, but when the first has been
  removed \<^verbatim>\<open>os.Stat\<close> fails for the second: it is not printed on a \<^verbatim>\<open>Duplicate:\<close> line,
  no size is added for it, and the run panics, so that no statistics are printed at all.
\<close>

theorem counted_duplicate_never_reported:
  "duplicateCount (after_groups env_N (flags_N\<lparr>partitions := ''/d:/d/s:/d/s''\<rparr>) fs_N []) = 2
   \<and> reported (trace (after_groups env_N (flags_N\<lparr>partitions := ''/d:/d/s:/d/s''\<rparr>) fs_N []))
       = [''/d/s/f'']
   \<and> totalSaved (after_groups env_N (flags_N\<lparr>partitions := ''/d:/d/s:/d/s''\<rparr>) fs_N []) = 5
   \<and> panicked (after_groups env_N (flags_N\<lparr>partitions := ''/d:/d/s:/d/s''\<rparr>) fs_N [])
   \<and> reported (events (main env_N (flags_N\<lparr>partitions := ''/d:/d/s:/d/s''\<rparr>) fs_N []))
       = [''/d/s/f'']
   \<and> totals (events (main env_N (flags_N\<lparr>partitions := ''/d:/d/s:/d/s''\<rparr>) fs_N [])) = []
   \<and> exit (main env_N (flags_N\<lparr>partitions := ''/d:/d/s:/d/s''\<rparr>) fs_N []) = Exit2"
  by (simp add: after_groups_def after_hashing_def run_defs env_N_def env_A_def flags_N_def
      fs_N_def walk_N_def)

section \<open>A file that cannot be hashed\<close>

lemma scanning_hashed: "list_all scanning tr \<Longrightarrow> hashed tr = []"
proof (induction tr)
  case Nil
  show ?case by simp
next
  case (Cons ev tr)
  then show ?case by (cases ev) simp_all
qed

lemma early_totals: "list_all early tr \<Longrightarrow> totals tr = []"
proof (induction tr)
  case Nil
  show ?case by simp
next
  case (Cons ev tr)
  then show ?case by (cases ev) simp_all
qed

lemma map_of_map_append:
  "map_of (map_append k v m) =
     (map_of m)(k \<mapsto> (case map_of m k of None \<Rightarrow> [v] | Some vs \<Rightarrow> vs @ [v]))"
  by (induction m) (auto simp: fun_eq_iff)

lemma map_fst_map_append:
  "map fst (map_append k v m) = (if k \<in> set (map fst m) then map fst m else map fst m @ [k])"
  by (induction m) (auto simp: rev_image_eqI)

lemma distinct_map_append:
  "distinct (map fst m) \<Longrightarrow> distinct (map fst (map_append k v m))"
  by (simp add: map_fst_map_append)

lemma hash_inv_hash_file:
  assumes "hash_inv e fsys acc"
  shows "hash_inv e fsys (hash_file e fsys acc p)"
proof -
  obtain hm tf tr where acc: "acc = (hm, tf, tr)" by (cases acc)
  show ?thesis
  proof (cases "fileHash e fsys p")
    case (Inl err)
    then show ?thesis
      using assms acc by (auto simp: hash_inv_def digest_group_def)
  next
    case (Inr h)
    then show ?thesis
      using assms acc
      by (auto simp: hash_inv_def digest_group_def map_of_map_append distinct_map_append
          split: option.splits)
  qed
qed

lemma hash_inv_foldl_hash_file:
  "hash_inv e fsys acc \<Longrightarrow> hash_inv e fsys (foldl (hash_file e fsys) acc ps)"
  by (induction ps arbitrary: acc) (simp_all add: hash_inv_hash_file)

lemma hash_inv_log:
  "hash_inv e fsys (hm, tf, tr) \<Longrightarrow> hash_inv e fsys (hm, tf, tr @ [LogProcessing n sz])"
  by (auto simp: hash_inv_def)

lemma hash_inv_hash_bucket:
  "hash_inv e fsys acc \<Longrightarrow> hash_inv e fsys (hash_bucket e fl fsys acc b)"
  by (cases acc; cases b) (auto intro!: hash_inv_foldl_hash_file hash_inv_log)

lemma hash_inv_foldl_hash_bucket:
  "hash_inv e fsys acc \<Longrightarrow> hash_inv e fsys (foldl (hash_bucket e fl fsys) acc bs)"
  by (induction bs arbitrary: acc) (simp_all add: hash_inv_hash_bucket)

lemma hash_inv_hash_all:
  "hashed tr = [] \<Longrightarrow> hash_inv e fsys (hash_all e fl fsys sizeMap tr)"
  unfolding hash_all_def
  by (rule hash_inv_foldl_hash_bucket) (simp add: hash_inv_def digest_group_def)

lemma main_stages:
  "main e fl fs0 input =
     (if partitions fl = [] then \<lparr>final_fs = fs0, events = [LogFatal], exit = Exit1\<rparr>
      else if panicked (after_groups e fl fs0 input)
      then \<lparr>final_fs = fs (after_groups e fl fs0 input),
            events = trace (after_groups e fl fs0 input), exit = Exit2\<rparr>
      else \<lparr>final_fs = fs (after_groups e fl fs0 input),
            events = trace (after_groups e fl fs0 input)
              @ [PrintSummary (fst (snd (after_hashing e fl fs0)))
                   (duplicateCount (after_groups e fl fs0 input))
                   (sint (totalSaved (after_groups e fl fs0 input)) sdiv 1048576)]
              @ (if dryRun fl then [PrintDryRunBanner] else []),
            exit = Exit0\<rparr>)"
  by (simp add: main_def after_groups_def after_hashing_def Let_def)

lemma scanning_after_scan:
  "list_all scanning
     (if verbose fl
      then snd (scan e fl) @ [LogScanned (length (fst (scan e fl))),
                              LogPotential (potentialDuplicates (fst (scan e fl)))]
      else snd (scan e fl))"
  by (simp add: scanning_scan)

lemma early_after_hashing: "list_all early (snd (snd (after_hashing e fl fs0)))"
  unfolding after_hashing_def
  by (rule early_hash_all) (simp add: early_scan)

lemma hash_inv_after_hashing: "hash_inv e fs0 (after_hashing e fl fs0)"
  unfolding after_hashing_def
  by (rule hash_inv_hash_all) (rule scanning_hashed [OF scanning_after_scan])

lemma range_map_genuine:
  "(k, v) \<in> set (range_map order m) \<Longrightarrow> map_of m k = Some v"
  by (auto simp: range_map_def map_filter_def)

lemma group_members_hashed:
  assumes "hash_inv e fsys acc" and "(h, ps) \<in> set (range_map order (fst acc))"
  shows "ps = digest_group e fsys (hashed (snd (snd acc))) h" and "ps \<noteq> []"
proof -
  have m: "map_of (fst acc) h = Some ps"
    using range_map_genuine [OF assms(2)] .
  have "map_of (fst acc) h =
      (if digest_group e fsys (hashed (snd (snd acc))) h = [] then None
       else Some (digest_group e fsys (hashed (snd (snd acc))) h))"
    using assms(1) unfolding hash_inv_def by blast
  then show "ps = digest_group e fsys (hashed (snd (snd acc))) h" and "ps \<noteq> []"
    using m by (auto split: if_splits)
qed

lemma group_event_mono:
  "list_all (group_event P) tr \<Longrightarrow> (\<And>p. P p \<Longrightarrow> Q p) \<Longrightarrow> list_all (group_event Q) tr"
proof (induction tr)
  case Nil
  show ?case by simp
next
  case (Cons ev tr)
  then show ?case by (cases ev) auto
qed

lemma group_event_views:
  assumes "list_all (group_event P) tr"
  shows "list_all P (keepers tr) \<and> list_all P (reported tr) \<and> list_all P (removals tr)
       \<and> list_all P (prompted tr) \<and> hashed tr = [] \<and> totals tr = []"
  using assms
proof (induction tr)
  case Nil
  show ?case by simp
next
  case (Cons ev tr)
  then have ih: "list_all P (keepers tr) \<and> list_all P (reported tr) \<and> list_all P (removals tr)
       \<and> list_all P (prompted tr) \<and> hashed tr = [] \<and> totals tr = []"
    and ev: "group_event P ev"
    by simp_all
  from ev ih show ?case
    by (cases ev) simp_all
qed

lemma trace_process_duplicate:
  "\<exists>new. trace (process_duplicate fl d s) = trace s @ new
         \<and> list_all (group_event (\<lambda>p. p = d)) new"
  by (auto simp: process_duplicate_def remove_duplicate_def emit_def Scanln_def Let_def
      split: sum.splits list.splits option.splits)

lemma trace_process_duplicates:
  "\<exists>new. trace (process_duplicates fl dups s) = trace s @ new
         \<and> list_all (group_event (\<lambda>p. p \<in> set dups)) new"
proof (induction dups arbitrary: s)
  case Nil
  show ?case by simp
next
  case (Cons d dups)
  obtain n1 where n1: "trace (process_duplicate fl d s) = trace s @ n1"
    "list_all (group_event (\<lambda>p. p = d)) n1"
    using trace_process_duplicate by blast
  obtain n2 where n2: "trace (process_duplicates fl dups (process_duplicate fl d s))
       = trace (process_duplicate fl d s) @ n2"
    "list_all (group_event (\<lambda>p. p \<in> set dups)) n2"
    using Cons.IH by blast
  have a: "list_all (group_event (\<lambda>p. p \<in> set (d # dups))) n1"
    using group_event_mono [OF n1(2)] by simp
  have b: "list_all (group_event (\<lambda>p. p \<in> set (d # dups))) n2"
    using group_event_mono [OF n2(2)] by simp
  show ?case
  proof (cases "panicked (process_duplicate fl d s)")
    case True
    then show ?thesis using n1(1) a by (simp add: Let_def)
  next
    case False
    then have "trace (process_duplicates fl (d # dups) s) = trace s @ (n1 @ n2)"
      using n1(1) n2(1) by (simp add: Let_def)
    moreover have "list_all (group_event (\<lambda>p. p \<in> set (d # dups))) (n1 @ n2)"
      using a b by simp
    ultimately show ?thesis by blast
  qed
qed

lemma contract_subset:
  assumes "sort_Slice_contract srt" "srt lt xs = Some ys"
  shows "set ys = set xs"
  using contract_Some(1) [OF assms] by (metis set_mset_mset)

lemma trace_process_group:
  assumes "sort_Slice_contract (sort_Slice e)"
  shows "\<exists>new. trace (process_group e fl g s) = trace s @ new
           \<and> list_all (group_event (\<lambda>p. p \<in> set (snd g))) new"
proof (cases "length (snd g) < 2")
  case True
  then show ?thesis by (simp add: process_group_def)
next
  case long: False
  show ?thesis
  proof (cases "sort_Slice e (lessFunc e (fs s)) (snd g)")
    case None
    then show ?thesis using long by (simp add: process_group_def)
  next
    case (Some ys)
    have sub: "set ys = set (snd g)"
      using contract_subset [OF assms Some] .
    show ?thesis
    proof (cases ys)
      case Nil
      then show ?thesis using long Some by (simp add: process_group_def)
    next
      case (Cons k ds)
      show ?thesis
      proof (cases "length (fst g) < 8")
        case True
        then show ?thesis using long Some Cons by (simp add: process_group_def)
      next
        case False
        let ?s0 = "emit (PrintKeeper k) (emit (PrintGroup (take 8 (fst g))) s)"
        obtain n where n: "trace (process_duplicates fl ds ?s0) = trace ?s0 @ n"
          "list_all (group_event (\<lambda>p. p \<in> set ds)) n"
          using trace_process_duplicates by blast
        have "list_all (group_event (\<lambda>p. p \<in> set (snd g))) n"
        proof (rule group_event_mono [OF n(2)])
          fix p assume "p \<in> set ds"
          then show "p \<in> set (snd g)" using sub Cons by auto
        qed
        moreover have "k \<in> set (snd g)"
          using sub Cons by auto
        ultimately have "list_all (group_event (\<lambda>p. p \<in> set (snd g)))
            ([PrintGroup (take 8 (fst g)), PrintKeeper k] @ n)"
          by simp
        moreover have "trace (process_group e fl g s)
            = trace s @ ([PrintGroup (take 8 (fst g)), PrintKeeper k] @ n)"
          using long Some Cons False n(1) by (simp add: process_group_def emit_def)
        ultimately show ?thesis by blast
      qed
    qed
  qed
qed

lemma trace_process_groups:
  assumes "sort_Slice_contract (sort_Slice e)"
  shows "\<exists>new. trace (process_groups e fl gs s) = trace s @ new
           \<and> list_all (group_event (\<lambda>p. \<exists>g\<in>set gs. p \<in> set (snd g))) new"
proof (induction gs arbitrary: s)
  case Nil
  show ?case by simp
next
  case (Cons g gs)
  obtain n1 where n1: "trace (process_group e fl g s) = trace s @ n1"
    "list_all (group_event (\<lambda>p. p \<in> set (snd g))) n1"
    using trace_process_group [OF assms] by blast
  obtain n2 where n2: "trace (process_groups e fl gs (process_group e fl g s))
       = trace (process_group e fl g s) @ n2"
    "list_all (group_event (\<lambda>p. \<exists>g\<in>set gs. p \<in> set (snd g))) n2"
    using Cons.IH by blast
  have a: "list_all (group_event (\<lambda>p. \<exists>g'\<in>set (g # gs). p \<in> set (snd g'))) n1"
    using group_event_mono [OF n1(2)] by simp
  have b: "list_all (group_event (\<lambda>p. \<exists>g'\<in>set (g # gs). p \<in> set (snd g'))) n2"
    using group_event_mono [OF n2(2)] by simp
  show ?case
  proof (cases "panicked (process_group e fl g s)")
    case True
    then show ?thesis using n1(1) a by (simp add: Let_def)
  next
    case False
    then have "trace (process_groups e fl (g # gs) s) = trace s @ (n1 @ n2)"
      using n1(1) n2(1) by (simp add: Let_def)
    moreover have "list_all (group_event (\<lambda>p. \<exists>g'\<in>set (g # gs). p \<in> set (snd g'))) (n1 @ n2)"
      using a b by simp
    ultimately show ?thesis by blast
  qed
qed


text \<open>
  C7. A file whose digest computation fails is left out of everything that follows: it
  is never printed as keeper or as duplicate and never handed to \<^verbatim>\<open>os.Remove\<close>, each
  failed attempt is logged, and the total of files processed that the summary prints is
  the number of hash computations that succeeded, so the failed one is not in it.
\<close>

theorem unhashable_file_excluded:
  assumes "sort_Slice_contract (sort_Slice e)" and "fileHash e fs0 p = Inl err"
  shows "p \<notin> set (keepers (events (main e fl fs0 input)))
       \<and> p \<notin> set (reported (events (main e fl fs0 input)))
       \<and> p \<notin> set (removals (events (main e fl fs0 input)))
       \<and> (p \<in> set (hashed (events (main e fl fs0 input))) \<longrightarrow>
            LogErrHash p err \<in> set (events (main e fl fs0 input)))
       \<and> (\<forall>tf\<in>set (totals (events (main e fl fs0 input))).
            tf = length (filter (hashable e fs0) (hashed (events (main e fl fs0 input)))))"
proof (cases "partitions fl = []")
  case True
  then show ?thesis by (simp add: main_stages)
next
  case False
  define acc where "acc = after_hashing e fl fs0"
  define gs where "gs = range_map (rangeHashes e) (fst acc)"
  define tr4 where "tr4 = snd (snd acc)"
  have inv: "hash_inv e fs0 acc"
    unfolding acc_def by (rule hash_inv_after_hashing)
  have early: "list_all early tr4"
    unfolding tr4_def acc_def by (rule early_after_hashing)
  define s0 where "s0 = \<lparr>fs = fs0, stdin = input, trace = tr4,
        duplicateCount = 0, totalSaved = 0, panicked = False\<rparr>"
  have ag: "after_groups e fl fs0 input = process_groups e fl gs s0"
    by (simp add: after_groups_def gs_def acc_def tr4_def s0_def)
  obtain new where new0: "trace (process_groups e fl gs s0) = trace s0 @ new"
    and ge: "list_all (group_event (\<lambda>q. \<exists>g\<in>set gs. q \<in> set (snd g))) new"
    using trace_process_groups [OF assms(1), of fl gs s0] by blast
  have new: "trace (after_groups e fl fs0 input) = tr4 @ new"
    using new0 ag by (simp add: s0_def)
  have notin: "\<not> (\<exists>g\<in>set gs. p \<in> set (snd g))"
  proof
    assume "\<exists>g\<in>set gs. p \<in> set (snd g)"
    then obtain h ps where g: "(h, ps) \<in> set gs" and p: "p \<in> set ps" by auto
    have "ps = digest_group e fs0 (hashed (snd (snd acc))) h"
      using group_members_hashed(1) [OF inv] g unfolding gs_def by blast
    then have "fileHash e fs0 p = Inr h"
      using p by (simp add: digest_group_def)
    then show False using assms(2) by simp
  qed
  note v = group_event_views [OF ge]
  note w = early_views [OF early] early_totals [OF early]
  define tr where "tr = tr4 @ new"
  have k: "p \<notin> set (keepers tr)" "p \<notin> set (reported tr)" "p \<notin> set (removals tr)"
    using v w notin unfolding tr_def by (auto simp: list_all_iff)
  have h: "hashed tr = hashed tr4"
    using v unfolding tr_def by simp
  have tf: "fst (snd acc) = length (filter (hashable e fs0) (hashed tr))"
    using inv h unfolding hash_inv_def tr4_def hashable_def by simp
  have lg: "p \<in> set (hashed tr) \<longrightarrow> LogErrHash p err \<in> set tr"
    using inv assms(2) h unfolding hash_inv_def tr4_def tr_def by auto
  have t0: "totals tr = []"
    using v w unfolding tr_def by simp
  have tr: "trace (after_groups e fl fs0 input) = tr"
    using new by (simp add: tr_def)
  have ev: "events (main e fl fs0 input) = tr
      \<or> events (main e fl fs0 input)
          = tr @ [PrintSummary (fst (snd acc)) (duplicateCount (after_groups e fl fs0 input))
                   (sint (totalSaved (after_groups e fl fs0 input)) sdiv 1048576)]
      \<or> events (main e fl fs0 input)
          = tr @ [PrintSummary (fst (snd acc)) (duplicateCount (after_groups e fl fs0 input))
                   (sint (totalSaved (after_groups e fl fs0 input)) sdiv 1048576),
                 PrintDryRunBanner]"
    using False tr by (simp add: main_stages acc_def)
  from ev show ?thesis
  proof (elim disjE)
    assume a: "events (main e fl fs0 input) = tr"
    show ?thesis
      unfolding a using k lg t0 by simp
  next
    assume a: "events (main e fl fs0 input)
          = tr @ [PrintSummary (fst (snd acc)) (duplicateCount (after_groups e fl fs0 input))
                   (sint (totalSaved (after_groups e fl fs0 input)) sdiv 1048576)]"
    show ?thesis
      unfolding a using k lg t0 tf by simp
  next
    assume a: "events (main e fl fs0 input)
          = tr @ [PrintSummary (fst (snd acc)) (duplicateCount (after_groups e fl fs0 input))
                   (sint (totalSaved (after_groups e fl fs0 input)) sdiv 1048576),
                 PrintDryRunBanner]"
    show ?thesis
      unfolding a using k lg t0 tf by simp
  qed
qed


text \<open>
  \<^verbatim>\<open>/a/y\<close> cannot be read: it is hashed and logged, the group is \<^verbatim>\<open>/a/x\<close> with the
  duplicate \<^verbatim>\<open>/a/w\<close>, and the summary counts two files.
\<close>

theorem unhashable_file_excluded_witness:
  "sort_Slice_contract (sort_Slice env_U)
   \<and> fileHash env_U fs_U ''/a/y'' = Inl EACCES
   \<and> hashed (events (main env_U flags_A fs_U [])) = [''/a/x'', ''/a/y'', ''/a/w'']
   \<and> LogErrHash ''/a/y'' EACCES \<in> set (events (main env_U flags_A fs_U []))
   \<and> keepers (events (main env_U flags_A fs_U [])) = [''/a/x'']
   \<and> reported (events (main env_U flags_A fs_U [])) = [''/a/w'']
   \<and> ''/a/y'' \<notin> set (removals (events (main env_U flags_A fs_U [])))
   \<and> totals (events (main env_U flags_A fs_U [])) = [2]"
proof -
  have c: "sort_Slice_contract (sort_Slice env_U)"
    by (simp add: env_U_def env_A_def insertionSort_contract)
  have f: "fileHash env_U fs_U ''/a/y'' = Inl EACCES"
    by (simp add: fileHash_def fs_U_def)
  have r: "hashed (events (main env_U flags_A fs_U [])) = [''/a/x'', ''/a/y'', ''/a/w'']"
    "keepers (events (main env_U flags_A fs_U [])) = [''/a/x'']"
    "reported (events (main env_U flags_A fs_U [])) = [''/a/w'']"
    "totals (events (main env_U flags_A fs_U [])) = [2]"
    by (simp_all add: run_defs env_U_def env_A_def flags_A_def fs_U_def walk_U_def)
  show ?thesis
    using c f r unhashable_file_excluded [OF c f, of flags_A "[]"] by simp
qed

section \<open>Two dry runs of an unmodified tree\<close>

lemma report_step_early: "early ev \<Longrightarrow> report_step ev acc = acc"
  by (cases ev; cases acc) simp_all

lemma foldr_report_early: "list_all early tr \<Longrightarrow> foldr report_step tr acc = acc"
  by (induction tr) (simp_all add: report_step_early)

lemma foldr_report_duplicates:
  "foldr report_step (map PrintDuplicate ds) (cur, bs) = (map PrintDuplicate ds @ cur, bs)"
  by (induction ds) simp_all

lemma foldr_report_block:
  "foldr report_step (block e fsys g) ([], bs)
     = ([], (if block e fsys g = [] then [] else [block e fsys g]) @ bs)"
  by (auto simp: block_def foldr_report_duplicates split: option.splits list.splits)

lemma foldr_report_blocks:
  "foldr report_step (concat (map (block e fsys) gs)) ([], bs)
     = ([], filter (\<lambda>b. b \<noteq> []) (map (block e fsys) gs) @ bs)"
  by (induction gs) (simp_all add: foldr_report_block)

lemma group_reports_run:
  assumes "list_all early tr" and "post = [] \<or> post = [PrintDryRunBanner]"
  shows "group_reports (tr @ concat (map (block e fsys) gs) @ PrintSummary a b c # post)
       = filter (\<lambda>b. b \<noteq> []) (map (block e fsys) gs)"
  using assms
  by (auto simp: group_reports_def foldr_report_blocks foldr_report_early)

lemma dry_duplicate_step:
  assumes "dryRun fl" "fs s d \<noteq> None"
  shows "trace (process_duplicate fl d s) = trace s @ [PrintDuplicate d]"
    and "panicked (process_duplicate fl d s) = panicked s"
  using assms
  by (auto simp: process_duplicate_def emit_def Stat_def Let_def split: option.splits)

lemma dry_duplicates_trace:
  assumes "dryRun fl"
  shows "\<not> panicked s \<Longrightarrow> \<forall>d\<in>set ds. fs s d \<noteq> None \<Longrightarrow>
         trace (process_duplicates fl ds s) = trace s @ map PrintDuplicate ds
         \<and> \<not> panicked (process_duplicates fl ds s)"
proof (induction ds arbitrary: s)
  case Nil
  then show ?case by simp
next
  case (Cons d ds)
  let ?s1 = "process_duplicate fl d s"
  have here: "fs s d \<noteq> None" using Cons.prems(2) by simp
  have np: "\<not> panicked ?s1"
    using dry_duplicate_step(2) [OF assms here] Cons.prems(1) by simp
  have "fs ?s1 = fs s"
    using dry_process_duplicate(1) [OF assms] .
  then have "\<forall>d'\<in>set ds. fs ?s1 d' \<noteq> None"
    using Cons.prems(2) by simp
  from Cons.IH [OF np this] show ?case
    using np dry_duplicate_step(1) [OF assms here] by (simp add: Let_def)
qed

lemma dry_group_trace:
  assumes "dryRun fl" and "sort_Slice_contract (sort_Slice e)" and "\<not> panicked s"
    and "\<forall>p\<in>set (snd g). fs s p \<noteq> None" and "8 \<le> length (fst g)"
  shows "trace (process_group e fl g s) = trace s @ block e (fs s) g
       \<and> \<not> panicked (process_group e fl g s)"
proof (cases "length (snd g) < 2")
  case True
  then show ?thesis using assms(3) by (simp add: process_group_def block_def)
next
  case False
  obtain ys where ys: "sort_Slice e (lessFunc e (fs s)) (snd g) = Some ys"
    and m: "mset ys = mset (snd g)"
    using sort_present_group [OF assms(2,4)] by blast
  have "length ys = length (snd g)"
    using m by (metis size_mset)
  then obtain k ds where kd: "ys = k # ds"
    using False by (cases ys) auto
  have "set ys = set (snd g)"
    using m by (metis set_mset_mset)
  then have pres: "\<forall>d\<in>set ds. fs s d \<noteq> None"
    using assms(4) kd by auto
  let ?s0 = "emit (PrintKeeper k) (emit (PrintGroup (take 8 (fst g))) s)"
  have "trace (process_duplicates fl ds ?s0) = trace ?s0 @ map PrintDuplicate ds
         \<and> \<not> panicked (process_duplicates fl ds ?s0)"
    using dry_duplicates_trace [OF assms(1), of ?s0 ds] assms(3) pres by (simp add: emit_def)
  then show ?thesis
    using False ys kd assms(5) by (simp add: process_group_def block_def emit_def)
qed

lemma dry_groups_trace:
  assumes "dryRun fl" and "sort_Slice_contract (sort_Slice e)"
  shows "\<not> panicked s \<Longrightarrow>
         \<forall>g\<in>set gs. (\<forall>p\<in>set (snd g). fs s p \<noteq> None) \<and> 8 \<le> length (fst g) \<Longrightarrow>
         trace (process_groups e fl gs s) = trace s @ concat (map (block e (fs s)) gs)
         \<and> \<not> panicked (process_groups e fl gs s)"
proof (induction gs arbitrary: s)
  case Nil
  then show ?case by simp
next
  case (Cons g gs)
  let ?s1 = "process_group e fl g s"
  have g: "\<forall>p\<in>set (snd g). fs s p \<noteq> None" "8 \<le> length (fst g)"
    using Cons.prems(2) by simp_all
  have st: "trace ?s1 = trace s @ block e (fs s) g" "\<not> panicked ?s1"
    using dry_group_trace [OF assms Cons.prems(1) g] by simp_all
  have f: "fs ?s1 = fs s"
    using dry_process_group [OF assms(1)] by simp
  have "\<forall>g\<in>set gs. (\<forall>p\<in>set (snd g). fs ?s1 p \<noteq> None) \<and> 8 \<le> length (fst g)"
    using Cons.prems(2) f by simp
  from Cons.IH [OF st(2) this] show ?case
    using st f by (simp add: Let_def)
qed

lemma hashed_hash_file:
  "hashed (snd (snd (hash_file e fsys acc p))) = hashed (snd (snd acc)) @ [p]"
  by (cases acc) (auto split: sum.splits)

lemma hashed_foldl_hash_file:
  "hashed (snd (snd (foldl (hash_file e fsys) acc ps))) = hashed (snd (snd acc)) @ ps"
  by (induction ps arbitrary: acc) (simp_all add: hashed_hash_file)

lemma hashed_hash_bucket:
  "hashed (snd (snd (hash_bucket e fl fsys acc b)))
     = hashed (snd (snd acc)) @ (if length (snd b) < 2 then [] else snd b)"
  by (cases acc; cases b) (simp add: hashed_foldl_hash_file)

lemma hashed_foldl_hash_bucket:
  "hashed (snd (snd (foldl (hash_bucket e fl fsys) acc bs)))
     = hashed (snd (snd acc)) @ candidates bs"
  by (induction bs arbitrary: acc) (simp_all add: hashed_hash_bucket candidates_def)

lemma hashed_hash_all:
  "hashed tr = [] \<Longrightarrow>
   hashed (snd (snd (hash_all e fl fsys sizeMap tr)))
     = candidates (range_map (rangeSizes e) sizeMap)"
  by (simp add: hash_all_def hashed_foldl_hash_bucket)

lemma hashed_after_hashing:
  "hashed (snd (snd (after_hashing e fl fs0)))
     = candidates (range_map (rangeSizes e) (fst (scan e fl)))"
  unfolding after_hashing_def
  by (rule hashed_hash_all) (rule scanning_hashed [OF scanning_after_scan])

lemma map_of_distinct_keys:
  "distinct (map fst m) \<Longrightarrow> map (\<lambda>k. (k, the (map_of m k))) (map fst m) = m"
proof (induction m)
  case Nil
  show ?case by simp
next
  case (Cons a m)
  obtain k v where a: "a = (k, v)" by (cases a)
  have nk: "\<forall>k'\<in>set (map fst m). k' \<noteq> k"
    using Cons.prems a by auto
  have "map (\<lambda>k'. (k', the (map_of ((k, v) # m) k'))) (map fst m)
      = map (\<lambda>k'. (k', the (map_of m k'))) (map fst m)"
    by (rule map_cong [OF refl]) (use nk in auto)
  also have "\<dots> = m"
    using Cons by simp
  finally have "map (\<lambda>k'. (k', the (map_of ((k, v) # m) k'))) (map fst m) = m" .
  then show ?case using a by simp
qed

lemma range_map_total:
  assumes "set ks \<subseteq> set (map fst m)"
  shows "List.map_filter (\<lambda>k. map_option (Pair k) (map_of m k)) ks
       = map (\<lambda>k. (k, the (map_of m k))) ks"
  using assms
proof (induction ks)
  case Nil
  show ?case by (simp add: map_filter_simps)
next
  case (Cons k ks)
  then have "k \<in> fst ` set m" by simp
  then obtain v where "map_of m k = Some v"
    by (metis map_of_eq_None_iff not_None_eq)
  then show ?case using Cons by (simp add: map_filter_simps)
qed

lemma mset_range_map:
  assumes "distinct (map fst m)" and "mset (order (map fst m)) = mset (map fst m)"
  shows "mset (range_map order m) = mset m"
proof -
  have "set (order (map fst m)) = set (map fst m)"
    using assms(2) by (metis set_mset_mset)
  then have "range_map order m = map (\<lambda>k. (k, the (map_of m k))) (order (map fst m))"
    unfolding range_map_def by (intro range_map_total) simp
  then have "mset (range_map order m)
      = image_mset (\<lambda>k. (k, the (map_of m k))) (mset (order (map fst m)))"
    by simp
  also have "\<dots> = image_mset (\<lambda>k. (k, the (map_of m k))) (mset (map fst m))"
    using assms(2) by (rule arg_cong)
  also have "\<dots> = mset (map (\<lambda>k. (k, the (map_of m k))) (map fst m))"
    by (rule mset_map [symmetric])
  also have "\<dots> = mset m"
    using map_of_distinct_keys [OF assms(1)] by simp
  finally show ?thesis .
qed

lemma distinct_walkFn:
  "distinct (map fst (fst acc)) \<Longrightarrow> distinct (map fst (fst (walkFn acc v)))"
  by (cases "(acc, v)" rule: walkFn.cases) (auto simp: distinct_map_append)

lemma distinct_foldl_walkFn:
  "distinct (map fst (fst acc)) \<Longrightarrow> distinct (map fst (fst (foldl walkFn acc vs)))"
  by (induction vs arbitrary: acc) (simp_all add: distinct_walkFn)

lemma distinct_scan_partition:
  assumes "distinct (map fst (fst acc))"
  shows "distinct (map fst (fst (scan_partition e fl acc root)))"
proof (cases acc)
  case (Pair sizeMap tr)
  define tr1 where "tr1 = (if verbose fl then tr @ [LogScanning root] else tr)"
  obtain sm tr2 where w: "foldl walkFn (sizeMap, tr1) (fst (Walk e root)) = (sm, tr2)"
    by (cases "foldl walkFn (sizeMap, tr1) (fst (Walk e root))")
  have "distinct (map fst sm)"
    using distinct_foldl_walkFn [of "(sizeMap, tr1)" "fst (Walk e root)"] w assms Pair by simp
  then show ?thesis
    using Pair w by (simp add: tr1_def [symmetric] split: option.splits)
qed

lemma distinct_foldl_scan_partition:
  "distinct (map fst (fst acc)) \<Longrightarrow>
   distinct (map fst (fst (foldl (scan_partition e fl) acc roots)))"
  by (induction roots arbitrary: acc) (simp_all add: distinct_scan_partition)

lemma distinct_scan: "distinct (map fst (fst (scan e fl)))"
  by (simp add: scan_def distinct_foldl_scan_partition)

lemma concat_all_empty: "\<forall>x\<in>set xs. g x = [] \<Longrightarrow> concat (map g xs) = []"
  by (induction xs) simp_all

lemma concat_single:
  "distinct xs \<Longrightarrow> x0 \<in> set xs \<Longrightarrow> \<forall>y\<in>set xs. y \<noteq> x0 \<longrightarrow> g y = [] \<Longrightarrow>
   concat (map g xs) = g x0"
proof (induction xs)
  case Nil
  then show ?case by simp
next
  case (Cons x xs)
  show ?case
  proof (cases "x = x0")
    case True
    then have "\<forall>y\<in>set xs. g y = []" using Cons.prems by auto
    then show ?thesis using True by (simp add: concat_all_empty)
  next
    case False
    then have "g x = []" and "x0 \<in> set xs" using Cons.prems by auto
    then show ?thesis using Cons by simp
  qed
qed

lemma concat_permuted:
  assumes "distinct xs" and "mset ys = mset xs"
    and "\<forall>x\<in>set xs. \<forall>y\<in>set xs. x \<noteq> y \<longrightarrow> g x = [] \<or> g y = []"
  shows "concat (map g ys) = concat (map g xs)"
proof -
  have dy: "distinct ys" using assms(1,2) by (metis mset_eq_imp_distinct_iff)
  have se: "set ys = set xs" using assms(2) by (metis set_mset_mset)
  show ?thesis
  proof (cases "\<exists>x0\<in>set xs. g x0 \<noteq> []")
    case True
    then obtain x0 where x0: "x0 \<in> set xs" "g x0 \<noteq> []" by blast
    have o: "\<forall>y\<in>set xs. y \<noteq> x0 \<longrightarrow> g y = []"
      using assms(3) x0 by blast
    have "concat (map g xs) = g x0"
      using concat_single [OF assms(1) x0(1) o] .
    moreover have "concat (map g ys) = g x0"
      using concat_single [OF dy] x0(1) o se by simp
    ultimately show ?thesis by simp
  next
    case False
    then show ?thesis using se by (simp add: concat_all_empty)
  qed
qed

lemma same_scan_partition:
  "Walk e' = Walk e \<Longrightarrow> scan_partition e' fl acc root = scan_partition e fl acc root"
  by (cases acc) simp

lemma same_foldl_scan_partition:
  assumes "Walk e' = Walk e"
  shows "foldl (scan_partition e' fl) acc roots = foldl (scan_partition e fl) acc roots"
proof -
  have "scan_partition e' fl = scan_partition e fl"
    by (intro ext) (rule same_scan_partition [OF assms])
  then show ?thesis by (simp only:)
qed

lemma same_platform_facts:
  assumes "same_platform e e'"
  shows "scan e' fl = scan e fl" and "fileHash e' = fileHash e"
    and "lessFunc e' = lessFunc e" and "block e' = block e"
proof -
  have eqs: "SplitList e' = SplitList e" "Walk e' = Walk e" "VolumeName e' = VolumeName e"
    "sha256hex e' = sha256hex e" "sort_Slice e' = sort_Slice e"
    using assms by (simp_all add: same_platform_def)
  show "scan e' fl = scan e fl"
    using same_foldl_scan_partition [OF eqs(2), of fl] by (simp add: scan_def eqs(1))
  show "fileHash e' = fileHash e"
    by (intro ext) (simp add: fileHash_def eqs(4) split: option.splits)
  show l: "lessFunc e' = lessFunc e"
    by (intro ext) (simp add: lessFunc_def eqs(3) split: sum.splits)
  show "block e' = block e"
    by (intro ext) (simp add: block_def l eqs(5) split: option.splits list.splits)
qed

lemma fileHash_present: "fileHash e fsys p = Inr h \<Longrightarrow> fsys p \<noteq> None"
  by (auto simp: fileHash_def split: option.splits)

lemma fileHash_digest:
  "fileHash e fsys p = Inr h \<Longrightarrow> \<exists>c. h = sha256hex e c"
  by (auto simp: fileHash_def split: option.splits if_splits)

lemma dry_run_events:
  assumes "dryRun fl" and "sort_Slice_contract (sort_Slice e)"
    and "\<forall>c. 8 \<le> length (sha256hex e c)" and "partitions fl \<noteq> []"
  shows "\<exists>tr a b c. list_all early tr
         \<and> events (main e fl fs0 input)
           = tr @ concat (map (block e fs0)
                    (range_map (rangeHashes e) (fst (after_hashing e fl fs0))))
               @ [PrintSummary a b c, PrintDryRunBanner]"
proof -
  define acc where "acc = after_hashing e fl fs0"
  define gs where "gs = range_map (rangeHashes e) (fst acc)"
  define tr4 where "tr4 = snd (snd acc)"
  define s0 where "s0 = \<lparr>fs = fs0, stdin = input, trace = tr4,
        duplicateCount = 0, totalSaved = 0, panicked = False\<rparr>"
  have inv: "hash_inv e fs0 acc"
    unfolding acc_def by (rule hash_inv_after_hashing)
  have early: "list_all early tr4"
    unfolding tr4_def acc_def by (rule early_after_hashing)
  have ag: "after_groups e fl fs0 input = process_groups e fl gs s0"
    by (simp add: after_groups_def gs_def acc_def tr4_def s0_def)
  have good: "\<forall>g\<in>set gs. (\<forall>p\<in>set (snd g). fs s0 p \<noteq> None) \<and> 8 \<le> length (fst g)"
  proof
    fix g assume g: "g \<in> set gs"
    obtain h ps where hp: "g = (h, ps)" by (cases g)
    have ps: "ps = digest_group e fs0 (hashed (snd (snd acc))) h" and ne: "ps \<noteq> []"
      using group_members_hashed [OF inv] g hp unfolding gs_def by blast+
    have all: "\<forall>p\<in>set ps. fileHash e fs0 p = Inr h"
      using ps by (simp add: digest_group_def)
    then have pres: "\<forall>p\<in>set ps. fs0 p \<noteq> None"
      using fileHash_present by blast
    obtain p where "p \<in> set ps" using ne by (cases ps) auto
    then obtain c where "h = sha256hex e c"
      using all fileHash_digest by blast
    then have "8 \<le> length h" using assms(3) by simp
    then show "(\<forall>p\<in>set (snd g). fs s0 p \<noteq> None) \<and> 8 \<le> length (fst g)"
      using pres hp by (simp add: s0_def)
  qed
  have np: "\<not> panicked s0" by (simp add: s0_def)
  have tr: "trace (process_groups e fl gs s0) = tr4 @ concat (map (block e fs0) gs)"
    and fin: "\<not> panicked (process_groups e fl gs s0)"
    using dry_groups_trace [OF assms(1,2) np good] by (simp_all add: s0_def)
  have "events (main e fl fs0 input)
      = tr4 @ concat (map (block e fs0) gs)
          @ [PrintSummary (fst (snd acc)) (duplicateCount (after_groups e fl fs0 input))
              (sint (totalSaved (after_groups e fl fs0 input)) sdiv 1048576),
             PrintDryRunBanner]"
    using assms(1,4) tr fin ag by (simp add: main_stages acc_def)
  then show ?thesis
    using early unfolding gs_def acc_def by blast
qed

lemma dry_run_reports:
  assumes "dryRun fl" and "sort_Slice_contract (sort_Slice e)"
    and "\<forall>c. 8 \<le> length (sha256hex e c)" and "partitions fl \<noteq> []"
  shows "group_reports (events (main e fl fs0 input))
       = filter (\<lambda>b. b \<noteq> [])
           (map (block e fs0) (range_map (rangeHashes e) (fst (after_hashing e fl fs0))))"
proof -
  obtain tr a b c where "list_all early tr"
    and "events (main e fl fs0 input)
           = tr @ concat (map (block e fs0)
                    (range_map (rangeHashes e) (fst (after_hashing e fl fs0))))
               @ [PrintSummary a b c, PrintDryRunBanner]"
    using dry_run_events [OF assms] by blast
  then show ?thesis
    using group_reports_run [of tr "[PrintDryRunBanner]" e fs0 _ a b c] by simp
qed

lemma keepers_concat: "keepers (concat trs) = concat (map keepers trs)"
  by (induction trs) simp_all

lemma dry_run_keepers:
  assumes "dryRun fl" and "sort_Slice_contract (sort_Slice e)"
    and "\<forall>c. 8 \<le> length (sha256hex e c)" and "partitions fl \<noteq> []"
  shows "keepers (events (main e fl fs0 input))
       = concat (map (\<lambda>g. keepers (block e fs0 g))
           (range_map (rangeHashes e) (fst (after_hashing e fl fs0))))"
proof -
  obtain tr a b c where "list_all early tr"
    and "events (main e fl fs0 input)
           = tr @ concat (map (block e fs0)
                    (range_map (rangeHashes e) (fst (after_hashing e fl fs0))))
               @ [PrintSummary a b c, PrintDryRunBanner]"
    using dry_run_events [OF assms] by blast
  then show ?thesis
    using early_views(3) [of tr] by (simp add: keepers_concat comp_def)
qed

lemma mset_concat_map:
  "mset (concat (map f xs)) = (\<Sum>x\<in>#mset xs. mset (f x))"
  by (induction xs) simp_all

lemma digest_group_candidates:
  "digest_group e fsys (candidates bs) h
     = concat (map (\<lambda>b. filter (\<lambda>q. fileHash e fsys q = Inr h)
                            (if length (snd b) < 2 then [] else snd b)) bs)"
  by (induction bs) (simp_all add: digest_group_def candidates_def)

lemma digest_groups_order_free:
  assumes "sizes_tell_digests e fl fs0" and "mset bs = mset (fst (scan e fl))"
  shows "digest_group e fs0 (candidates bs) h
       = digest_group e fs0 (candidates (fst (scan e fl))) h"
proof -
  let ?sm = "fst (scan e fl)"
  let ?g = "\<lambda>b. filter (\<lambda>q. fileHash e fs0 q = Inr h) (if length (snd b) < 2 then [] else snd b)"
  have dk: "distinct (map fst ?sm)" by (rule distinct_scan)
  then have d: "distinct ?sm" by (rule distinct_map [THEN iffD1, THEN conjunct1])
  have one: "\<forall>x\<in>set ?sm. \<forall>y\<in>set ?sm. x \<noteq> y \<longrightarrow> ?g x = [] \<or> ?g y = []"
  proof (intro ballI impI)
    fix x y assume x: "x \<in> set ?sm" and y: "y \<in> set ?sm" and xy: "x \<noteq> y"
    have k: "fst x \<noteq> fst y"
      using dk x y xy by (metis distinct_map inj_on_def)
    show "?g x = [] \<or> ?g y = []"
    proof (rule ccontr)
      assume "\<not> (?g x = [] \<or> ?g y = [])"
      then obtain p q where p: "p \<in> set (?g x)" and q: "q \<in> set (?g y)"
        by (metis last_in_set)
      then have "p \<in> set (snd x)" "q \<in> set (snd y)"
        "fileHash e fs0 p = Inr h" "fileHash e fs0 q = Inr h"
        by (auto split: if_splits)
      then show False
        using assms(1) x y k unfolding sizes_tell_digests_def by fastforce
    qed
  qed
  show ?thesis
    unfolding digest_group_candidates
    by (rule concat_permuted [OF d assms(2) one])
qed

lemma map_of_after_hashing:
  assumes "sizes_tell_digests e fl fs0" and "range_permutes e"
  shows "map_of (fst (after_hashing e fl fs0)) h =
      (if digest_group e fs0 (candidates (fst (scan e fl))) h = [] then None
       else Some (digest_group e fs0 (candidates (fst (scan e fl))) h))"
proof -
  have "mset (range_map (rangeSizes e) (fst (scan e fl))) = mset (fst (scan e fl))"
    using assms(2) distinct_scan [of e fl] unfolding range_permutes_def
    by (intro mset_range_map) simp_all
  then have "digest_group e fs0 (hashed (snd (snd (after_hashing e fl fs0)))) h
      = digest_group e fs0 (candidates (fst (scan e fl))) h"
    unfolding hashed_after_hashing by (rule digest_groups_order_free [OF assms(1)])
  moreover have "map_of (fst (after_hashing e fl fs0)) h =
      (if digest_group e fs0 (hashed (snd (snd (after_hashing e fl fs0)))) h = [] then None
       else Some (digest_group e fs0 (hashed (snd (snd (after_hashing e fl fs0)))) h))"
    using hash_inv_after_hashing [of e fs0 fl] unfolding hash_inv_def by blast
  ultimately show ?thesis by simp
qed

lemma groups_order_free:
  assumes "same_platform e e'" and "range_permutes e" and "range_permutes e'"
    and "sizes_tell_digests e fl fs0"
  shows "mset (range_map (rangeHashes e') (fst (after_hashing e' fl fs0)))
       = mset (range_map (rangeHashes e) (fst (after_hashing e fl fs0)))"
proof -
  note sp = same_platform_facts [OF assms(1)]
  have st': "sizes_tell_digests e' fl fs0"
    using assms(4) unfolding sizes_tell_digests_def sp(1,2) .
  have "map_of (fst (after_hashing e' fl fs0)) h = map_of (fst (after_hashing e fl fs0)) h" for h
    using map_of_after_hashing [OF st' assms(3), of h]
      map_of_after_hashing [OF assms(4) assms(2), of h]
    by (simp add: sp(1) digest_group_def sp(2))
  then have mo: "map_of (fst (after_hashing e' fl fs0)) = map_of (fst (after_hashing e fl fs0))"
    by (rule ext)
  have d: "distinct (map fst (fst (after_hashing e fl fs0)))"
    and d': "distinct (map fst (fst (after_hashing e' fl fs0)))"
    using hash_inv_after_hashing [of e fs0 fl] hash_inv_after_hashing [of e' fs0 fl]
    unfolding hash_inv_def by blast+
  have "set (fst (after_hashing e' fl fs0)) = set (fst (after_hashing e fl fs0))"
    using map_of_inject_set [OF d' d] mo by simp
  moreover have "distinct (fst (after_hashing e fl fs0))" "distinct (fst (after_hashing e' fl fs0))"
    using d d' by (simp_all add: distinct_map)
  ultimately have m: "mset (fst (after_hashing e' fl fs0)) = mset (fst (after_hashing e fl fs0))"
    by (simp add: set_eq_iff_mset_eq_distinct)
  have "mset (range_map (rangeHashes e') (fst (after_hashing e' fl fs0)))
      = mset (fst (after_hashing e' fl fs0))"
    using assms(3) d' unfolding range_permutes_def by (intro mset_range_map) simp_all
  moreover have "mset (range_map (rangeHashes e) (fst (after_hashing e fl fs0)))
      = mset (fst (after_hashing e fl fs0))"
    using assms(2) d unfolding range_permutes_def by (intro mset_range_map) simp_all
  ultimately show ?thesis using m by simp
qed

text \<open>
  C5, as amended. Two dry runs on the same platform over a tree that is not modified,
  whatever order each \<^verbatim>\<open>range\<close> over the size map and the digest map takes in either run,
  print the same group reports up to the order in which the groups are printed: the same
  header, the same keeper and the same duplicates in the same order for every group, and
  so the same keepers. The order in which the groups are printed is the order of Go's map
  iteration, which differs from run to run.
\<close>

theorem dry_run_reports_order_free:
  assumes "dryRun fl"
    and "sort_Slice_contract (sort_Slice e)"
    and "\<forall>c. 8 \<le> length (sha256hex e c)"
    and "same_platform e e'"
    and "range_permutes e" and "range_permutes e'"
    and "sizes_tell_digests e fl fs0"
  shows "mset (group_reports (events (main e' fl fs0 input')))
           = mset (group_reports (events (main e fl fs0 input)))
       \<and> mset (keepers (events (main e' fl fs0 input')))
           = mset (keepers (events (main e fl fs0 input)))"
proof (cases "partitions fl = []")
  case True
  then show ?thesis by (simp add: main_stages)
next
  case False
  note sp = same_platform_facts [OF assms(4)]
  have c': "sort_Slice_contract (sort_Slice e')" and l': "\<forall>c. 8 \<le> length (sha256hex e' c)"
    using assms(2,3,4) by (simp_all add: same_platform_def)
  note gs = groups_order_free [OF assms(4,5,6,7)]
  have "mset (group_reports (events (main e' fl fs0 input')))
      = filter_mset (\<lambda>b. b \<noteq> [])
          (image_mset (block e fs0)
             (mset (range_map (rangeHashes e') (fst (after_hashing e' fl fs0)))))"
    unfolding dry_run_reports [OF assms(1) c' l' False] sp(4) by simp
  also have "\<dots> = filter_mset (\<lambda>b. b \<noteq> [])
          (image_mset (block e fs0)
             (mset (range_map (rangeHashes e) (fst (after_hashing e fl fs0)))))"
    unfolding gs ..
  also have "\<dots> = mset (group_reports (events (main e fl fs0 input)))"
    unfolding dry_run_reports [OF assms(1,2,3) False] by simp
  finally have reports: "mset (group_reports (events (main e' fl fs0 input')))
           = mset (group_reports (events (main e fl fs0 input)))" .
  have "mset (keepers (events (main e' fl fs0 input')))
      = (\<Sum>g\<in>#mset (range_map (rangeHashes e') (fst (after_hashing e' fl fs0))).
           mset (keepers (block e fs0 g)))"
    unfolding dry_run_keepers [OF assms(1) c' l' False] sp(4) by (rule mset_concat_map)
  also have "\<dots> = (\<Sum>g\<in>#mset (range_map (rangeHashes e) (fst (after_hashing e fl fs0))).
           mset (keepers (block e fs0 g)))"
    unfolding gs ..
  also have "\<dots> = mset (keepers (events (main e fl fs0 input)))"
    unfolding dry_run_keepers [OF assms(1,2,3) False] by (rule mset_concat_map [symmetric])
  finally show ?thesis using reports by simp
qed

text \<open>
  Two runs over the two pairs, the second visiting the size map in reverse: the two
  reports come out in the other order and are the same reports.
\<close>

theorem dry_run_reports_order_free_witness:
  "dryRun (flags_A\<lparr>dryRun := True\<rparr>)
   \<and> sort_Slice_contract (sort_Slice env_W)
   \<and> (\<forall>c. 8 \<le> length (sha256hex env_W c))
   \<and> same_platform env_W (env_W\<lparr>rangeSizes := rev\<rparr>)
   \<and> range_permutes env_W
   \<and> range_permutes (env_W\<lparr>rangeSizes := rev\<rparr>)
   \<and> sizes_tell_digests env_W (flags_A\<lparr>dryRun := True\<rparr>) fs_W
   \<and> group_reports (events (main env_W (flags_A\<lparr>dryRun := True\<rparr>) fs_W []))
       = [[PrintGroup ''abc00000'', PrintKeeper ''/a/x'', PrintDuplicate ''/a/y''],
          [PrintGroup ''abcd0000'', PrintKeeper ''/a/w'', PrintDuplicate ''/a/z'']]
   \<and> group_reports (events (main (env_W\<lparr>rangeSizes := rev\<rparr>)
         (flags_A\<lparr>dryRun := True\<rparr>) fs_W [''y'']))
       = [[PrintGroup ''abcd0000'', PrintKeeper ''/a/w'', PrintDuplicate ''/a/z''],
          [PrintGroup ''abc00000'', PrintKeeper ''/a/x'', PrintDuplicate ''/a/y'']]
   \<and> mset (group_reports (events (main (env_W\<lparr>rangeSizes := rev\<rparr>)
         (flags_A\<lparr>dryRun := True\<rparr>) fs_W [''y''])))
       = mset (group_reports (events (main env_W (flags_A\<lparr>dryRun := True\<rparr>) fs_W [])))
   \<and> mset (keepers (events (main (env_W\<lparr>rangeSizes := rev\<rparr>)
         (flags_A\<lparr>dryRun := True\<rparr>) fs_W [''y''])))
       = mset (keepers (events (main env_W (flags_A\<lparr>dryRun := True\<rparr>) fs_W [])))"
proof -
  have d: "dryRun (flags_A\<lparr>dryRun := True\<rparr>)" by simp
  have c: "sort_Slice_contract (sort_Slice env_W)"
    by (simp add: env_W_def env_A_def insertionSort_contract)
  have l: "\<forall>c. 8 \<le> length (sha256hex env_W c)"
    by (simp add: env_W_def env_A_def demo_digest_def min_def)
  have sp: "same_platform env_W (env_W\<lparr>rangeSizes := rev\<rparr>)"
    by (simp add: same_platform_def)
  have p: "range_permutes env_W"
    by (simp add: range_permutes_def env_W_def env_A_def)
  have p': "range_permutes (env_W\<lparr>rangeSizes := rev\<rparr>)"
    by (simp add: range_permutes_def env_W_def env_A_def)
  have sc: "fst (scan env_W (flags_A\<lparr>dryRun := True\<rparr>))
      = [(3, [''/a/x'', ''/a/y'']), (4, [''/a/z'', ''/a/w''])]"
    by (simp add: run_defs env_W_def env_A_def flags_A_def walk_W_def)
  have st: "sizes_tell_digests env_W (flags_A\<lparr>dryRun := True\<rparr>) fs_W"
    unfolding sizes_tell_digests_def sc
    by (simp add: fileHash_def fs_W_def env_W_def env_A_def demo_digest_def)
  have r1: "group_reports (events (main env_W (flags_A\<lparr>dryRun := True\<rparr>) fs_W []))
       = [[PrintGroup ''abc00000'', PrintKeeper ''/a/x'', PrintDuplicate ''/a/y''],
          [PrintGroup ''abcd0000'', PrintKeeper ''/a/w'', PrintDuplicate ''/a/z'']]"
    by (simp add: group_reports_def run_defs env_W_def env_A_def flags_A_def fs_W_def walk_W_def)
  have r2: "group_reports (events (main (env_W\<lparr>rangeSizes := rev\<rparr>)
         (flags_A\<lparr>dryRun := True\<rparr>) fs_W [''y'']))
       = [[PrintGroup ''abcd0000'', PrintKeeper ''/a/w'', PrintDuplicate ''/a/z''],
          [PrintGroup ''abc00000'', PrintKeeper ''/a/x'', PrintDuplicate ''/a/y'']]"
    by (simp add: group_reports_def run_defs env_W_def env_A_def flags_A_def fs_W_def walk_W_def)
  show ?thesis
    using d c l sp p p' st r1 r2
      dry_run_reports_order_free [OF d c l sp p p' st, of "[''y'']" "[]"]
    by simp
qed

text \<open>
  C5 as stated fails: the group reports of two dry runs over the same tree are the same
  reports, yet not in the same order. The two pairs of \<^verbatim>\<open>/a\<close> are reported in one order
  when the size map is visited in one order, and in the other order when it is visited in
  reverse; Go fixes no order for the keys of a map.
\<close>

theorem dry_run_report_order_follows_map_order:
  "same_platform env_W (env_W\<lparr>rangeSizes := rev\<rparr>)
   \<and> range_permutes env_W
   \<and> range_permutes (env_W\<lparr>rangeSizes := rev\<rparr>)
   \<and> group_reports (events (main env_W (flags_A\<lparr>dryRun := True\<rparr>) fs_W []))
       = [[PrintGroup ''abc00000'', PrintKeeper ''/a/x'', PrintDuplicate ''/a/y''],
          [PrintGroup ''abcd0000'', PrintKeeper ''/a/w'', PrintDuplicate ''/a/z'']]
   \<and> group_reports (events (main (env_W\<lparr>rangeSizes := rev\<rparr>)
         (flags_A\<lparr>dryRun := True\<rparr>) fs_W []))
       = [[PrintGroup ''abcd0000'', PrintKeeper ''/a/w'', PrintDuplicate ''/a/z''],
          [PrintGroup ''abc00000'', PrintKeeper ''/a/x'', PrintDuplicate ''/a/y'']]
   \<and> group_reports (events (main (env_W\<lparr>rangeSizes := rev\<rparr>)
         (flags_A\<lparr>dryRun := True\<rparr>) fs_W []))
       \<noteq> group_reports (events (main env_W (flags_A\<lparr>dryRun := True\<rparr>) fs_W []))"
proof -
  have sp: "same_platform env_W (env_W\<lparr>rangeSizes := rev\<rparr>)"
    by (simp add: same_platform_def)
  have p: "range_permutes env_W"
    by (simp add: range_permutes_def env_W_def env_A_def)
  have p': "range_permutes (env_W\<lparr>rangeSizes := rev\<rparr>)"
    by (simp add: range_permutes_def env_W_def env_A_def)
  have r1: "group_reports (events (main env_W (flags_A\<lparr>dryRun := True\<rparr>) fs_W []))
       = [[PrintGroup ''abc00000'', PrintKeeper ''/a/x'', PrintDuplicate ''/a/y''],
          [PrintGroup ''abcd0000'', PrintKeeper ''/a/w'', PrintDuplicate ''/a/z'']]"
    by (simp add: group_reports_def run_defs env_W_def env_A_def flags_A_def fs_W_def walk_W_def)
  have r2: "group_reports (events (main (env_W\<lparr>rangeSizes := rev\<rparr>)
         (flags_A\<lparr>dryRun := True\<rparr>) fs_W []))
       = [[PrintGroup ''abcd0000'', PrintKeeper ''/a/w'', PrintDuplicate ''/a/z''],
          [PrintGroup ''abc00000'', PrintKeeper ''/a/x'', PrintDuplicate ''/a/y'']]"
    by (simp add: group_reports_def run_defs env_W_def env_A_def flags_A_def fs_W_def walk_W_def)
  show ?thesis
    unfolding r1 r2 using sp p p' by simp
qed

section \<open>Files met once\<close>

lemma bucketed_Nil [simp]: "bucketed [] = []"
  by (simp add: bucketed_def)

lemma bucketed_Cons:
  "bucketed (v # vs) =
     (case snd v of
        Inl _ \<Rightarrow> []
      | Inr info \<Rightarrow>
          if IsDir info \<or> ModeSymlink info \<or> Size info = 0 then []
          else [(fst v, Size info)]) @ bucketed vs"
  by (auto simp: bucketed_def split: sum.splits)

lemma mset_concat_map_append:
  "mset (concat (map snd (map_append k v m))) = add_mset v (mset (concat (map snd m)))"
  by (induction m) auto

lemma size_inv_walkFn:
  assumes "size_inv es (fst acc)"
  shows "size_inv (es @ bucketed [v]) (fst (walkFn acc v))"
proof (cases "(acc, v)" rule: walkFn.cases)
  case (1 sizeMap tr p err)
  then show ?thesis using assms by (simp add: bucketed_Cons)
next
  case (2 sizeMap tr p info)
  then show ?thesis
    using assms
    by (auto simp: bucketed_Cons size_inv_def bucket_of_def map_of_map_append
        distinct_map_append mset_concat_map_append split: option.splits)
qed

lemma bucketed_append: "bucketed (vs @ ws) = bucketed vs @ bucketed ws"
  by (induction vs) (simp_all add: bucketed_Cons)

lemma size_inv_foldl_walkFn:
  "size_inv es (fst acc) \<Longrightarrow> size_inv (es @ bucketed vs) (fst (foldl walkFn acc vs))"
proof (induction vs arbitrary: es acc)
  case Nil
  then show ?case by simp
next
  case (Cons v vs)
  have "size_inv ((es @ bucketed [v]) @ bucketed vs) (fst (foldl walkFn (walkFn acc v) vs))"
    by (rule Cons.IH) (rule size_inv_walkFn [OF Cons.prems])
  moreover have "(es @ bucketed [v]) @ bucketed vs = es @ bucketed (v # vs)"
    using bucketed_append [of "[v]" vs] by simp
  ultimately show ?case by simp
qed

lemma size_inv_scan_partition:
  assumes "size_inv es (fst acc)"
  shows "size_inv (es @ bucketed (fst (Walk e root))) (fst (scan_partition e fl acc root))"
proof (cases acc)
  case (Pair sizeMap tr)
  define tr1 where "tr1 = (if verbose fl then tr @ [LogScanning root] else tr)"
  obtain sm tr2 where w: "foldl walkFn (sizeMap, tr1) (fst (Walk e root)) = (sm, tr2)"
    by (cases "foldl walkFn (sizeMap, tr1) (fst (Walk e root))")
  have "size_inv (es @ bucketed (fst (Walk e root))) sm"
    using size_inv_foldl_walkFn [of es "(sizeMap, tr1)" "fst (Walk e root)"] w assms Pair
    by simp
  then show ?thesis
    using Pair w by (simp add: tr1_def [symmetric] split: option.splits)
qed

lemma size_inv_foldl_scan_partition:
  "size_inv es (fst acc) \<Longrightarrow>
   size_inv (es @ concat (map (\<lambda>root. bucketed (fst (Walk e root))) roots))
     (fst (foldl (scan_partition e fl) acc roots))"
proof (induction roots arbitrary: es acc)
  case Nil
  then show ?case by simp
next
  case (Cons root roots)
  have "size_inv ((es @ bucketed (fst (Walk e root)))
           @ concat (map (\<lambda>root. bucketed (fst (Walk e root))) roots))
         (fst (foldl (scan_partition e fl) (scan_partition e fl acc root) roots))"
    by (rule Cons.IH) (rule size_inv_scan_partition [OF Cons.prems])
  then show ?case by simp
qed

lemma size_inv_scan: "size_inv (scanned e fl) (fst (scan e fl))"
  using size_inv_foldl_scan_partition [of "[]" "([], [])" e "SplitList e (partitions fl)" fl]
  by (simp add: scan_def scanned_def size_inv_def bucket_of_def)

lemma candidates_bucketed:
  assumes "p \<in> set (candidates (range_map order (fst (scan e fl))))"
  shows "\<exists>sz. (p, sz) \<in> set (scanned e fl) \<and> 2 \<le> length (bucket_of (scanned e fl) sz)"
proof -
  obtain b where b: "b \<in> set (range_map order (fst (scan e fl)))"
    and l: "\<not> length (snd b) < 2" and p: "p \<in> set (snd b)"
    using assms by (auto simp: candidates_def split: if_splits)
  obtain sz ps where sp: "b = (sz, ps)" by (cases b)
  have "map_of (fst (scan e fl)) sz = Some ps"
    using range_map_genuine b sp by fastforce
  moreover have "map_of (fst (scan e fl)) sz =
      (if bucket_of (scanned e fl) sz = [] then None else Some (bucket_of (scanned e fl) sz))"
    using size_inv_scan [of e fl] unfolding size_inv_def by blast
  ultimately have ps: "ps = bucket_of (scanned e fl) sz"
    by (auto split: if_splits)
  have "(p, sz) \<in> set (scanned e fl)"
    using p sp ps by (auto simp: bucket_of_def)
  then show ?thesis using l sp ps by auto
qed

text \<open>
  What the size buckets do guarantee. A path is never hashed, never printed as keeper
  or as duplicate and never handed to \<^verbatim>\<open>os.Remove\<close> when each entry the scan makes
  for it has a size that fewer than two entries of the scan have. This covers every zero-byte file (the scan makes no entry for
  it) and every file met once whose size no other entry shares.
\<close>

theorem unshared_size_never_hashed:
  assumes "sort_Slice_contract (sort_Slice e)"
    and "\<forall>sz. (p, sz) \<in> set (scanned e fl) \<longrightarrow> length (bucket_of (scanned e fl) sz) < 2"
  shows "p \<notin> set (hashed (events (main e fl fs0 input)))
       \<and> p \<notin> set (keepers (events (main e fl fs0 input)))
       \<and> p \<notin> set (reported (events (main e fl fs0 input)))
       \<and> p \<notin> set (removals (events (main e fl fs0 input)))"
proof (cases "partitions fl = []")
  case True
  then show ?thesis by (simp add: main_stages)
next
  case False
  define acc where "acc = after_hashing e fl fs0"
  define gs where "gs = range_map (rangeHashes e) (fst acc)"
  define tr4 where "tr4 = snd (snd acc)"
  define s0 where "s0 = \<lparr>fs = fs0, stdin = input, trace = tr4,
        duplicateCount = 0, totalSaved = 0, panicked = False\<rparr>"
  have inv: "hash_inv e fs0 acc"
    unfolding acc_def by (rule hash_inv_after_hashing)
  have early: "list_all early tr4"
    unfolding tr4_def acc_def by (rule early_after_hashing)
  have nh: "p \<notin> set (hashed tr4)"
  proof
    assume "p \<in> set (hashed tr4)"
    then have "p \<in> set (candidates (range_map (rangeSizes e) (fst (scan e fl))))"
      by (simp add: tr4_def acc_def hashed_after_hashing)
    from candidates_bucketed [OF this] assms(2) show False
      by fastforce
  qed
  have ag: "after_groups e fl fs0 input = process_groups e fl gs s0"
    by (simp add: after_groups_def gs_def acc_def tr4_def s0_def)
  obtain new where new0: "trace (process_groups e fl gs s0) = trace s0 @ new"
    and ge: "list_all (group_event (\<lambda>q. \<exists>g\<in>set gs. q \<in> set (snd g))) new"
    using trace_process_groups [OF assms(1), of fl gs s0] by blast
  have notin: "\<not> (\<exists>g\<in>set gs. p \<in> set (snd g))"
  proof
    assume "\<exists>g\<in>set gs. p \<in> set (snd g)"
    then obtain h ps where g: "(h, ps) \<in> set gs" and p: "p \<in> set ps" by auto
    have "ps = digest_group e fs0 (hashed tr4) h"
      using group_members_hashed(1) [OF inv] g unfolding gs_def tr4_def by blast
    then show False using p nh by (simp add: digest_group_def)
  qed
  note v = group_event_views [OF ge]
  note w = early_views [OF early]
  define tr where "tr = tr4 @ new"
  have k: "p \<notin> set (keepers tr)" "p \<notin> set (reported tr)" "p \<notin> set (removals tr)"
    using v w notin unfolding tr_def by (auto simp: list_all_iff)
  have h: "p \<notin> set (hashed tr)"
    using v nh unfolding tr_def by simp
  have tr: "trace (after_groups e fl fs0 input) = tr"
    using new0 ag by (simp add: tr_def s0_def)
  have ev: "events (main e fl fs0 input) = tr
      \<or> events (main e fl fs0 input)
          = tr @ [PrintSummary (fst (snd acc)) (duplicateCount (after_groups e fl fs0 input))
                   (sint (totalSaved (after_groups e fl fs0 input)) sdiv 1048576)]
      \<or> events (main e fl fs0 input)
          = tr @ [PrintSummary (fst (snd acc)) (duplicateCount (after_groups e fl fs0 input))
                   (sint (totalSaved (after_groups e fl fs0 input)) sdiv 1048576),
                 PrintDryRunBanner]"
    using False tr by (simp add: main_stages acc_def)
  from ev show ?thesis
  proof (elim disjE)
    assume a: "events (main e fl fs0 input) = tr"
    show ?thesis unfolding a using k h by simp
  next
    assume a: "events (main e fl fs0 input)
          = tr @ [PrintSummary (fst (snd acc)) (duplicateCount (after_groups e fl fs0 input))
                   (sint (totalSaved (after_groups e fl fs0 input)) sdiv 1048576)]"
    show ?thesis unfolding a using k h by simp
  next
    assume a: "events (main e fl fs0 input)
          = tr @ [PrintSummary (fst (snd acc)) (duplicateCount (after_groups e fl fs0 input))
                   (sint (totalSaved (after_groups e fl fs0 input)) sdiv 1048576),
                 PrintDryRunBanner]"
    show ?thesis unfolding a using k h by simp
  qed
qed

text \<open>
  The empty file \<^verbatim>\<open>/a/e1\<close> and the only file of four bytes \<^verbatim>\<open>/a/z\<close> are not hashed.
\<close>

theorem unshared_size_never_hashed_witness:
  "sort_Slice_contract (sort_Slice env_Z)
   \<and> scanned env_Z flags_A = [(''/a/x'', 3), (''/a/y'', 3), (''/a/z'', 4)]
   \<and> hashed (events (main env_Z flags_A fs_A [])) = [''/a/x'', ''/a/y'']
   \<and> ''/a/e1'' \<notin> set (hashed (events (main env_Z flags_A fs_A [])))
   \<and> ''/a/e1'' \<notin> set (reported (events (main env_Z flags_A fs_A [])))
   \<and> ''/a/z'' \<notin> set (hashed (events (main env_Z flags_A fs_A [])))
   \<and> ''/a/z'' \<notin> set (keepers (events (main env_Z flags_A fs_A [])))"
proof -
  have c: "sort_Slice_contract (sort_Slice env_Z)"
    by (simp add: env_Z_def env_A_def insertionSort_contract)
  have sc: "scanned env_Z flags_A = [(''/a/x'', 3), (''/a/y'', 3), (''/a/z'', 4)]"
    by (simp add: scanned_def bucketed_def map_filter_simps env_Z_def env_A_def flags_A_def
        walk_Z_def reg_def dir_def)
  have e1: "\<forall>sz. (''/a/e1'', sz) \<in> set (scanned env_Z flags_A) \<longrightarrow>
      length (bucket_of (scanned env_Z flags_A) sz) < 2"
    unfolding sc by simp
  have z: "\<forall>sz. (''/a/z'', sz) \<in> set (scanned env_Z flags_A) \<longrightarrow>
      length (bucket_of (scanned env_Z flags_A) sz) < 2"
    unfolding sc by (simp add: bucket_of_def)
  have h: "hashed (events (main env_Z flags_A fs_A [])) = [''/a/x'', ''/a/y'']"
    by (simp add: run_defs env_Z_def env_A_def flags_A_def fs_A_def walk_Z_def)
  show ?thesis
    using c sc h unshared_size_never_hashed [OF c e1, of fs_A "[]"]
      unshared_size_never_hashed [OF c z, of fs_A "[]"]
    by simp
qed

lemma parts_hash_file:
  assumes "mset (concat (map snd (fst acc)))
         = mset (filter (hashable e fsys) (hashed (snd (snd acc))))"
  shows "mset (concat (map snd (fst (hash_file e fsys acc p))))
       = mset (filter (hashable e fsys) (hashed (snd (snd (hash_file e fsys acc p)))))"
  using assms
  by (cases acc) (auto simp: hashable_def mset_concat_map_append split: sum.splits)

lemma parts_foldl_hash_file:
  "mset (concat (map snd (fst acc))) = mset (filter (hashable e fsys) (hashed (snd (snd acc))))
   \<Longrightarrow> mset (concat (map snd (fst (foldl (hash_file e fsys) acc ps))))
       = mset (filter (hashable e fsys) (hashed (snd (snd (foldl (hash_file e fsys) acc ps)))))"
  by (induction ps arbitrary: acc) (simp_all add: parts_hash_file)

lemma parts_hash_bucket:
  assumes "mset (concat (map snd (fst acc)))
         = mset (filter (hashable e fsys) (hashed (snd (snd acc))))"
  shows "mset (concat (map snd (fst (hash_bucket e fl fsys acc b))))
       = mset (filter (hashable e fsys) (hashed (snd (snd (hash_bucket e fl fsys acc b)))))"
proof -
  obtain hm tf tr sz files where a: "acc = (hm, tf, tr)" and b: "b = (sz, files)"
    by (cases acc; cases b) auto
  show ?thesis
  proof (cases "length files < 2")
    case True
    then show ?thesis using assms a b by simp
  next
    case False
    have "mset (concat (map snd (fst (hm, tf, if verbose fl then tr @ [LogProcessing (length files) sz] else tr))))
        = mset (filter (hashable e fsys)
            (hashed (snd (snd (hm, tf, if verbose fl then tr @ [LogProcessing (length files) sz] else tr)))))"
      using assms a by simp
    from parts_foldl_hash_file [OF this, of files] show ?thesis
      using False a b by simp
  qed
qed

lemma parts_foldl_hash_bucket:
  "mset (concat (map snd (fst acc))) = mset (filter (hashable e fsys) (hashed (snd (snd acc))))
   \<Longrightarrow> mset (concat (map snd (fst (foldl (hash_bucket e fl fsys) acc bs))))
       = mset (filter (hashable e fsys)
           (hashed (snd (snd (foldl (hash_bucket e fl fsys) acc bs)))))"
  by (induction bs arbitrary: acc) (simp_all add: parts_hash_bucket)

lemma parts_after_hashing:
  "mset (concat (map snd (fst (after_hashing e fl fs0))))
     = mset (filter (hashable e fs0) (hashed (snd (snd (after_hashing e fl fs0)))))"
  unfolding after_hashing_def hash_all_def
  by (rule parts_foldl_hash_bucket) (simp add: scanning_hashed [OF scanning_after_scan])

lemma mset_candidates_sub: "mset (candidates bs) \<subseteq># mset (concat (map snd bs))"
  by (induction bs) (auto simp: candidates_def intro: subset_mset.add_mono
      subset_mset.order_trans [OF _ mset_subset_eq_add_right])

lemma mset_concat_perm:
  "mset xs = mset ys \<Longrightarrow> mset (concat (map f xs)) = mset (concat (map f ys))"
  by (simp add: mset_concat_map)

lemma distinct_mset_sub:
  assumes "mset xs \<subseteq># mset ys" and "distinct ys"
  shows "distinct xs"
proof -
  obtain zs where "mset ys = mset xs + zs"
    using assms(1) by (auto simp: mset_subset_eq_exists_conv)
  moreover obtain zl where "mset zl = zs"
    using ex_mset by blast
  ultimately have "mset ys = mset (xs @ zl)" by simp
  then have "distinct (xs @ zl)"
    using assms(2) mset_eq_imp_distinct_iff by blast
  then show ?thesis by simp
qed

lemma distinct_hashed:
  assumes "range_permutes e" and "distinct (map fst (scanned e fl))"
  shows "distinct (hashed (snd (snd (after_hashing e fl fs0))))"
proof -
  let ?sm = "fst (scan e fl)"
  have m: "mset (range_map (rangeSizes e) ?sm) = mset ?sm"
    using assms(1) distinct_scan [of e fl] unfolding range_permutes_def
    by (intro mset_range_map) simp_all
  have "mset (candidates (range_map (rangeSizes e) ?sm)) = mset (candidates ?sm)"
    unfolding candidates_def by (rule mset_concat_perm [OF m])
  also have "\<dots> \<subseteq># mset (concat (map snd ?sm))"
    by (rule mset_candidates_sub)
  also have "\<dots> = mset (map fst (scanned e fl))"
    using size_inv_scan [of e fl] unfolding size_inv_def by blast
  finally have "mset (candidates (range_map (rangeSizes e) ?sm))
      \<subseteq># mset (map fst (scanned e fl))" .
  then have "distinct (candidates (range_map (rangeSizes e) ?sm))"
    using assms(2) by (rule distinct_mset_sub)
  then show ?thesis by (simp add: hashed_after_hashing)
qed

lemma keepers_removals_group:
  assumes "sort_Slice_contract (sort_Slice e)" and "distinct (snd g)"
  shows "\<exists>new. trace (process_group e fl g s) = trace s @ new
           \<and> list_all (group_event (\<lambda>p. p \<in> set (snd g))) new
           \<and> set (keepers new) \<inter> set (removals new) = {}"
proof -
  have trivial: ?thesis if "trace (process_group e fl g s) = trace s"
    using that by (intro exI [of _ "[]"]) simp
  show ?thesis
  proof (cases "length (snd g) < 2")
    case True
    then show ?thesis by (intro trivial) (simp add: process_group_def)
  next
    case long: False
    show ?thesis
    proof (cases "sort_Slice e (lessFunc e (fs s)) (snd g)")
      case None
      then show ?thesis using long by (intro trivial) (simp add: process_group_def)
    next
      case (Some ys)
      have m: "mset ys = mset (snd g)"
        using contract_Some(1) [OF assms(1) Some] .
      have sub: "set ys = set (snd g)"
        using contract_subset [OF assms(1) Some] .
      have dys: "distinct ys"
        using m assms(2) mset_eq_imp_distinct_iff by blast
      show ?thesis
      proof (cases ys)
        case Nil
        then show ?thesis using long Some by (intro trivial) (simp add: process_group_def)
      next
        case (Cons k ds)
        show ?thesis
        proof (cases "length (fst g) < 8")
          case True
          then show ?thesis
            using long Some Cons by (intro trivial) (simp add: process_group_def)
        next
          case False
          let ?s0 = "emit (PrintKeeper k) (emit (PrintGroup (take 8 (fst g))) s)"
          obtain n where n: "trace (process_duplicates fl ds ?s0) = trace ?s0 @ n"
            "list_all (group_event (\<lambda>p. p \<in> set ds)) n"
            using trace_process_duplicates by blast
          have kn: "keepers n = []"
            using keepers_process_duplicates [of fl ds ?s0] n(1) by simp
          have rn: "set (removals n) \<subseteq> set ds"
            using group_event_views [OF n(2)] by (auto simp: list_all_iff)
          have "k \<notin> set ds" using dys Cons by simp
          then have disj: "set (keepers ([PrintGroup (take 8 (fst g)), PrintKeeper k] @ n))
              \<inter> set (removals ([PrintGroup (take 8 (fst g)), PrintKeeper k] @ n)) = {}"
            using kn rn by auto
          have "list_all (group_event (\<lambda>p. p \<in> set (snd g))) n"
          proof (rule group_event_mono [OF n(2)])
            fix p assume "p \<in> set ds"
            then show "p \<in> set (snd g)" using sub Cons by auto
          qed
          moreover have "k \<in> set (snd g)"
            using sub Cons by auto
          ultimately have ge: "list_all (group_event (\<lambda>p. p \<in> set (snd g)))
              ([PrintGroup (take 8 (fst g)), PrintKeeper k] @ n)"
            by simp
          have "trace (process_group e fl g s)
              = trace s @ ([PrintGroup (take 8 (fst g)), PrintKeeper k] @ n)"
            using long Some Cons False n(1) by (simp add: process_group_def emit_def)
          then show ?thesis using ge disj by blast
        qed
      qed
    qed
  qed
qed

lemma keepers_removals_groups:
  assumes "sort_Slice_contract (sort_Slice e)"
  shows "distinct (concat (map snd gs)) \<Longrightarrow>
         \<exists>new. trace (process_groups e fl gs s) = trace s @ new
           \<and> list_all (group_event (\<lambda>p. p \<in> set (concat (map snd gs)))) new
           \<and> set (keepers new) \<inter> set (removals new) = {}"
proof (induction gs arbitrary: s)
  case Nil
  then show ?case by simp
next
  case (Cons g gs)
  have dg: "distinct (snd g)" and dgs: "distinct (concat (map snd gs))"
    and dj: "set (snd g) \<inter> set (concat (map snd gs)) = {}"
    using Cons.prems by auto
  obtain n1 where n1: "trace (process_group e fl g s) = trace s @ n1"
    "list_all (group_event (\<lambda>p. p \<in> set (snd g))) n1"
    "set (keepers n1) \<inter> set (removals n1) = {}"
    using keepers_removals_group [OF assms dg] by blast
  obtain n2 where n2: "trace (process_groups e fl gs (process_group e fl g s))
       = trace (process_group e fl g s) @ n2"
    "list_all (group_event (\<lambda>p. p \<in> set (concat (map snd gs)))) n2"
    "set (keepers n2) \<inter> set (removals n2) = {}"
    using Cons.IH [OF dgs] by blast
  have a: "list_all (group_event (\<lambda>p. p \<in> set (concat (map snd (g # gs))))) n1"
    by (rule group_event_mono [OF n1(2)]) simp
  have b: "list_all (group_event (\<lambda>p. p \<in> set (concat (map snd (g # gs))))) n2"
    by (rule group_event_mono [OF n2(2)]) simp
  show ?case
  proof (cases "panicked (process_group e fl g s)")
    case True
    then show ?thesis using n1 a by (simp add: Let_def)
  next
    case False
    have in1: "set (keepers n1) \<subseteq> set (snd g)" "set (removals n1) \<subseteq> set (snd g)"
      using group_event_views [OF n1(2)] by (auto simp: list_all_iff)
    have in2: "set (keepers n2) \<subseteq> set (concat (map snd gs))"
      "set (removals n2) \<subseteq> set (concat (map snd gs))"
      using group_event_views [OF n2(2)] by (auto simp: list_all_iff)
    have "set (keepers (n1 @ n2)) \<inter> set (removals (n1 @ n2)) = {}"
      using n1(3) n2(3) in1 in2 dj by (simp add: Int_Un_distrib Int_Un_distrib2) blast
    moreover have "trace (process_groups e fl (g # gs) s) = trace s @ (n1 @ n2)"
      using False n1(1) n2(1) by (simp add: Let_def)
    moreover have "list_all (group_event (\<lambda>p. p \<in> set (concat (map snd (g # gs))))) (n1 @ n2)"
      using a b by simp
    ultimately show ?thesis by blast
  qed
qed

text \<open>
  What the deletion stage does guarantee. When the scan meets no path twice and each
  \<^verbatim>\<open>range\<close> visits every key once, no path printed as keeper is ever handed to
  \<^verbatim>\<open>os.Remove\<close>, in any mode.
\<close>

theorem keeper_kept_when_scanned_once:
  assumes "sort_Slice_contract (sort_Slice e)" and "range_permutes e"
    and "distinct (map fst (scanned e fl))"
  shows "set (keepers (events (main e fl fs0 input)))
       \<inter> set (removals (events (main e fl fs0 input))) = {}"
proof (cases "partitions fl = []")
  case True
  then show ?thesis by (simp add: main_stages)
next
  case False
  define acc where "acc = after_hashing e fl fs0"
  define gs where "gs = range_map (rangeHashes e) (fst acc)"
  define tr4 where "tr4 = snd (snd acc)"
  define s0 where "s0 = \<lparr>fs = fs0, stdin = input, trace = tr4,
        duplicateCount = 0, totalSaved = 0, panicked = False\<rparr>"
  have inv: "hash_inv e fs0 acc"
    unfolding acc_def by (rule hash_inv_after_hashing)
  have early: "list_all early tr4"
    unfolding tr4_def acc_def by (rule early_after_hashing)
  have dk: "distinct (map fst (fst acc))"
    using inv unfolding hash_inv_def by blast
  have "mset gs = mset (fst acc)"
    unfolding gs_def using assms(2) dk unfolding range_permutes_def
    by (intro mset_range_map) simp_all
  then have "mset (concat (map snd gs)) = mset (concat (map snd (fst acc)))"
    by (rule mset_concat_perm)
  also have "\<dots> = mset (filter (hashable e fs0) (hashed tr4))"
    unfolding acc_def tr4_def by (rule parts_after_hashing)
  finally have "mset (concat (map snd gs)) = mset (filter (hashable e fs0) (hashed tr4))" .
  moreover have "distinct (filter (hashable e fs0) (hashed tr4))"
    using distinct_hashed [OF assms(2,3), of fs0] by (simp add: tr4_def acc_def)
  ultimately have dg: "distinct (concat (map snd gs))"
    using mset_eq_imp_distinct_iff by blast
  have ag: "after_groups e fl fs0 input = process_groups e fl gs s0"
    by (simp add: after_groups_def gs_def acc_def tr4_def s0_def)
  obtain new where new0: "trace (process_groups e fl gs s0) = trace s0 @ new"
    and dj: "set (keepers new) \<inter> set (removals new) = {}"
    using keepers_removals_groups [OF assms(1) dg, of fl s0] by blast
  note w = early_views [OF early]
  define tr where "tr = tr4 @ new"
  have k: "set (keepers tr) \<inter> set (removals tr) = {}"
    using w dj unfolding tr_def by simp
  have tr: "trace (after_groups e fl fs0 input) = tr"
    using new0 ag by (simp add: tr_def s0_def)
  have ev: "events (main e fl fs0 input) = tr
      \<or> events (main e fl fs0 input)
          = tr @ [PrintSummary (fst (snd acc)) (duplicateCount (after_groups e fl fs0 input))
                   (sint (totalSaved (after_groups e fl fs0 input)) sdiv 1048576)]
      \<or> events (main e fl fs0 input)
          = tr @ [PrintSummary (fst (snd acc)) (duplicateCount (after_groups e fl fs0 input))
                   (sint (totalSaved (after_groups e fl fs0 input)) sdiv 1048576),
                 PrintDryRunBanner]"
    using False tr by (simp add: main_stages acc_def)
  from ev show ?thesis
  proof (elim disjE)
    assume a: "events (main e fl fs0 input) = tr"
    show ?thesis unfolding a using k by simp
  next
    assume a: "events (main e fl fs0 input)
          = tr @ [PrintSummary (fst (snd acc)) (duplicateCount (after_groups e fl fs0 input))
                   (sint (totalSaved (after_groups e fl fs0 input)) sdiv 1048576)]"
    show ?thesis unfolding a using k by simp
  next
    assume a: "events (main e fl fs0 input)
          = tr @ [PrintSummary (fst (snd acc)) (duplicateCount (after_groups e fl fs0 input))
                   (sint (totalSaved (after_groups e fl fs0 input)) sdiv 1048576),
                 PrintDryRunBanner]"
    show ?thesis unfolding a using k by simp
  qed
qed

text \<open>The two pairs of \<^verbatim>\<open>/a\<close>: the keepers stay, the two duplicates are removed.\<close>

theorem keeper_kept_when_scanned_once_witness:
  "sort_Slice_contract (sort_Slice env_W) \<and> range_permutes env_W
   \<and> distinct (map fst (scanned env_W flags_A))
   \<and> keepers (events (main env_W flags_A fs_W [])) = [''/a/x'', ''/a/w'']
   \<and> removals (events (main env_W flags_A fs_W [])) = [''/a/y'', ''/a/z'']
   \<and> set (keepers (events (main env_W flags_A fs_W [])))
       \<inter> set (removals (events (main env_W flags_A fs_W []))) = {}"
proof -
  have c: "sort_Slice_contract (sort_Slice env_W)"
    by (simp add: env_W_def env_A_def insertionSort_contract)
  have p: "range_permutes env_W"
    by (simp add: range_permutes_def env_W_def env_A_def)
  have d: "distinct (map fst (scanned env_W flags_A))"
    by (simp add: scanned_def bucketed_def map_filter_simps env_W_def env_A_def flags_A_def
        walk_W_def reg_def dir_def)
  have r: "keepers (events (main env_W flags_A fs_W [])) = [''/a/x'', ''/a/w'']"
    "removals (events (main env_W flags_A fs_W [])) = [''/a/y'', ''/a/z'']"
    by (simp_all add: run_defs env_W_def env_A_def flags_A_def fs_W_def walk_W_def)
  show ?thesis
    using c p d r keeper_kept_when_scanned_once [OF c p d, of fs_W "[]"] by simp
qed

section \<open>The order in which a run prints its groups\<close>

lemma listed_Nil [simp]: "listed [] = []"
  by (simp add: listed_def map_filter_simps)

lemma listed_Cons [simp]:
  "listed (ev # tr) =
     (case ev of PrintKeeper p \<Rightarrow> [p] | PrintDuplicate p \<Rightarrow> [p] | _ \<Rightarrow> []) @ listed tr"
  by (cases ev) (simp_all add: listed_def map_filter_simps)

lemma listed_append [simp]: "listed (xs @ ys) = listed xs @ listed ys"
  by (induction xs) simp_all

lemma foldr_report_duplicate_events:
  "list_all duplicate_event body \<Longrightarrow>
   \<exists>X. listed X = reported body
     \<and> (\<forall>cur bs. foldr report_step body (cur, bs) = (X @ cur, bs))"
proof (induction body)
  case Nil
  show ?case by simp
next
  case (Cons ev body)
  then obtain X where X: "listed X = reported body"
    "\<And>cur bs. foldr report_step body (cur, bs) = (X @ cur, bs)"
    by auto
  have ev: "duplicate_event ev" using Cons.prems by simp
  show ?case
  proof (cases ev)
    case (PrintDuplicate p)
    then show ?thesis using X by (intro exI [of _ "PrintDuplicate p # X"]) simp
  next
    case (PrintDeleted p)
    then show ?thesis using X by (intro exI [of _ "PrintDeleted p # X"]) simp
  qed (use ev X in \<open>auto\<close>)
qed

lemma duplicate_events_process_duplicate:
  "\<exists>body. trace (process_duplicate fl d s) = trace s @ body
     \<and> list_all duplicate_event body
     \<and> (reported body = [d] \<or> reported body = [] \<and> panicked (process_duplicate fl d s))"
  by (auto simp: process_duplicate_def remove_duplicate_def emit_def Scanln_def Let_def
      split: sum.splits list.splits option.splits)

lemma duplicate_events_process_duplicates:
  "\<exists>body n. trace (process_duplicates fl ds s) = trace s @ body
     \<and> list_all duplicate_event body \<and> reported body = take n ds"
proof (induction ds arbitrary: s)
  case Nil
  show ?case by simp
next
  case (Cons d ds)
  let ?s1 = "process_duplicate fl d s"
  obtain b1 where b1: "trace ?s1 = trace s @ b1" "list_all duplicate_event b1"
    "reported b1 = [d] \<or> reported b1 = [] \<and> panicked ?s1"
    using duplicate_events_process_duplicate by blast
  show ?case
  proof (cases "panicked ?s1")
    case True
    have "reported b1 = take 1 (d # ds) \<or> reported b1 = take 0 (d # ds)"
      using b1(3) by auto
    then obtain n where "reported b1 = take n (d # ds)" by blast
    then show ?thesis using True b1 by (auto simp: Let_def)
  next
    case False
    obtain b2 n where b2: "trace (process_duplicates fl ds ?s1) = trace ?s1 @ b2"
      "list_all duplicate_event b2" "reported b2 = take n ds"
      using Cons.IH by blast
    have "reported (b1 @ b2) = take (Suc n) (d # ds)"
      using b1(3) b2(3) False by simp
    moreover have "trace (process_duplicates fl (d # ds) s) = trace s @ (b1 @ b2)"
      using False b1(1) b2(1) by (simp add: Let_def)
    moreover have "list_all duplicate_event (b1 @ b2)"
      using b1(2) b2(2) by simp
    ultimately show ?thesis by blast
  qed
qed

lemma fs_process_duplicates_other:
  "p \<notin> set ds \<Longrightarrow> fs (process_duplicates fl ds s) p = fs s p"
proof (induction ds arbitrary: s)
  case Nil
  show ?case by simp
next
  case (Cons d ds)
  then show ?case
    by (simp add: Let_def fs_process_duplicate_other)
qed

lemma fs_process_group_other:
  assumes "sort_Slice_contract (sort_Slice e)" and "p \<notin> set (snd g)"
  shows "fs (process_group e fl g s) p = fs s p"
proof (cases "sort_Slice e (lessFunc e (fs s)) (snd g)")
  case None
  then show ?thesis by (simp add: process_group_def)
next
  case (Some ys)
  have sub: "set ys = set (snd g)"
    using contract_subset [OF assms(1) Some] .
  show ?thesis
  proof (cases ys)
    case Nil
    then show ?thesis using Some by (simp add: process_group_def)
  next
    case (Cons k ds)
    then have "p \<notin> set ds" using sub assms(2) by auto
    then show ?thesis
      using Some Cons by (simp add: process_group_def fs_process_duplicates_other emit_def)
  qed
qed

lemma report_process_group:
  assumes "sort_Slice_contract (sort_Slice e)" and "\<forall>p\<in>set (snd g). fs s p \<noteq> None"
  shows "\<exists>new B. trace (process_group e fl g s) = trace s @ new
           \<and> (\<forall>bs. foldr report_step new ([], bs) = ([], B @ bs))
           \<and> (\<forall>b\<in>set B. sorted_wrt (ordered_before e (fs s)) (listed b)
                 \<and> set (listed b) \<subseteq> set (snd g))"
proof -
  have trivial: ?thesis if "trace (process_group e fl g s) = trace s"
    using that by (intro exI [of _ "[]"]) simp
  show ?thesis
  proof (cases "length (snd g) < 2")
    case True
    then show ?thesis by (intro trivial) (simp add: process_group_def)
  next
    case long: False
    obtain ys where ys: "sort_Slice e (lessFunc e (fs s)) (snd g) = Some ys"
      and m: "mset ys = mset (snd g)" and srt: "sorted_wrt (ordered_before e (fs s)) ys"
      using sort_present_group [OF assms] by blast
    have sub: "set ys = set (snd g)"
      using m by (metis set_mset_mset)
    show ?thesis
    proof (cases ys)
      case Nil
      then show ?thesis using long ys by (intro trivial) (simp add: process_group_def)
    next
      case (Cons k ds)
      show ?thesis
      proof (cases "length (fst g) < 8")
        case True
        then show ?thesis using long ys Cons by (intro trivial) (simp add: process_group_def)
      next
        case False
        let ?s0 = "emit (PrintKeeper k) (emit (PrintGroup (take 8 (fst g))) s)"
        obtain body n where body: "trace (process_duplicates fl ds ?s0) = trace ?s0 @ body"
          "list_all duplicate_event body" "reported body = take n ds"
          using duplicate_events_process_duplicates by blast
        obtain X where X: "listed X = reported body"
          "\<And>cur bs. foldr report_step body (cur, bs) = (X @ cur, bs)"
          using foldr_report_duplicate_events [OF body(2)] by blast
        let ?new = "[PrintGroup (take 8 (fst g)), PrintKeeper k] @ body"
        let ?b = "PrintGroup (take 8 (fst g)) # PrintKeeper k # X"
        have tr: "trace (process_group e fl g s) = trace s @ ?new"
          using long ys Cons False body(1) by (simp add: process_group_def emit_def)
        have fo: "\<forall>bs. foldr report_step ?new ([], bs) = ([], [?b] @ bs)"
          by (simp add: X(2))
        have li: "listed ?b = take (Suc n) ys"
          using X(1) body(3) Cons by simp
        have "sorted_wrt (ordered_before e (fs s)) (take (Suc n) ys)"
          using srt by (rule sorted_wrt_take)
        moreover have "set (take (Suc n) ys) \<subseteq> set (snd g)"
          using sub set_take_subset [of "Suc n" ys] by simp
        ultimately have "\<forall>b\<in>set [?b]. sorted_wrt (ordered_before e (fs s)) (listed b)
                 \<and> set (listed b) \<subseteq> set (snd g)"
          unfolding li [symmetric] by simp
        then show ?thesis using tr fo by blast
      qed
    qed
  qed
qed


lemma report_process_groups:
  assumes "sort_Slice_contract (sort_Slice e)"
  shows "distinct (map fst gs) \<Longrightarrow>
         \<forall>g\<in>set gs. \<forall>p\<in>set (snd g). fileHash e fs0 p = Inr (fst g) \<Longrightarrow>
         \<forall>g\<in>set gs. \<forall>p\<in>set (snd g). fs s p = fs0 p \<Longrightarrow>
         \<exists>new B. trace (process_groups e fl gs s) = trace s @ new
           \<and> (\<forall>bs. foldr report_step new ([], bs) = ([], B @ bs))
           \<and> (\<forall>b\<in>set B. sorted_wrt (ordered_before e fs0) (listed b))"
proof (induction gs arbitrary: s)
  case Nil
  show ?case by (intro exI [of _ "[]"]) simp
next
  case (Cons g gs)
  let ?s1 = "process_group e fl g s"
  have here: "\<forall>p\<in>set (snd g). fs s p = fs0 p \<and> fs0 p \<noteq> None"
    using Cons.prems(2,3) fileHash_present by auto
  then have pres: "\<forall>p\<in>set (snd g). fs s p \<noteq> None" by simp
  obtain n1 B1 where n1: "trace ?s1 = trace s @ n1"
    "\<forall>bs. foldr report_step n1 ([], bs) = ([], B1 @ bs)"
    "\<forall>b\<in>set B1. sorted_wrt (ordered_before e (fs s)) (listed b)
         \<and> set (listed b) \<subseteq> set (snd g)"
    using report_process_group [OF assms pres] by blast
  have s1: "\<forall>b\<in>set B1. sorted_wrt (ordered_before e fs0) (listed b)"
  proof
    fix b assume b: "b \<in> set B1"
    have so: "sorted_wrt (ordered_before e (fs s)) (listed b)" and
      sub: "set (listed b) \<subseteq> set (snd g)"
      using n1(3) b by auto
    from so show "sorted_wrt (ordered_before e fs0) (listed b)"
    proof (rule sorted_wrt_mono_rel [rotated])
      fix p q assume pq: "p \<in> set (listed b)" "q \<in> set (listed b)"
        and o: "ordered_before e (fs s) p q"
      have "fs s p = fs0 p" "fs s q = fs0 q"
        using pq sub here by auto
      then have "mtime (fs s) p = mtime fs0 p" "mtime (fs s) q = mtime fs0 q"
        by (simp_all add: mtime_def)
      then show "ordered_before e fs0 p q"
        using o by (simp add: ordered_before_def)
    qed
  qed
  show ?case
  proof (cases "panicked ?s1")
    case True
    then have "trace (process_groups e fl (g # gs) s) = trace s @ n1"
      using n1(1) by (simp add: Let_def)
    then show ?thesis using n1(2) s1 by blast
  next
    case False
    have d: "distinct (map fst gs)" and new: "fst g \<notin> fst ` set gs"
      using Cons.prems(1) by simp_all
    have h: "\<forall>g'\<in>set gs. \<forall>p\<in>set (snd g'). fileHash e fs0 p = Inr (fst g')"
      using Cons.prems(2) by simp
    have f: "\<forall>g'\<in>set gs. \<forall>p\<in>set (snd g'). fs ?s1 p = fs0 p"
    proof (intro ballI)
      fix g' p assume g': "g' \<in> set gs" and p: "p \<in> set (snd g')"
      have "fileHash e fs0 p = Inr (fst g')" using h g' p by blast
      moreover have "fst g' \<noteq> fst g" using new g' by (metis imageI)
      ultimately have "p \<notin> set (snd g)" using Cons.prems(2) by auto
      then have "fs ?s1 p = fs s p" by (rule fs_process_group_other [OF assms])
      then show "fs ?s1 p = fs0 p" using Cons.prems(3) g' p by simp
    qed
    obtain n2 B2 where n2: "trace (process_groups e fl gs ?s1) = trace ?s1 @ n2"
      "\<forall>bs. foldr report_step n2 ([], bs) = ([], B2 @ bs)"
      "\<forall>b\<in>set B2. sorted_wrt (ordered_before e fs0) (listed b)"
      using Cons.IH [OF d h f] by blast
    have "trace (process_groups e fl (g # gs) s) = trace s @ (n1 @ n2)"
      using False n1(1) n2(1) by (simp add: Let_def)
    moreover have "\<forall>bs. foldr report_step (n1 @ n2) ([], bs) = ([], (B1 @ B2) @ bs)"
      using n1(2) n2(2) by simp
    moreover have "\<forall>b\<in>set (B1 @ B2). sorted_wrt (ordered_before e fs0) (listed b)"
      using s1 n2(3) by auto
    ultimately show ?thesis by blast
  qed
qed

lemma groups_printed_in_order:
  assumes "sort_Slice_contract (sort_Slice e)" and "range_permutes e"
  shows "\<forall>b\<in>set (group_reports (events (main e fl fs0 input))).
           sorted_wrt (ordered_before e fs0) (listed b)"
proof (cases "partitions fl = []")
  case True
  then show ?thesis by (simp add: main_stages group_reports_def)
next
  case False
  define acc where "acc = after_hashing e fl fs0"
  define gs where "gs = range_map (rangeHashes e) (fst acc)"
  define tr4 where "tr4 = snd (snd acc)"
  define s0 where "s0 = \<lparr>fs = fs0, stdin = input, trace = tr4,
        duplicateCount = 0, totalSaved = 0, panicked = False\<rparr>"
  have inv: "hash_inv e fs0 acc"
    unfolding acc_def by (rule hash_inv_after_hashing)
  have early: "list_all early tr4"
    unfolding tr4_def acc_def by (rule early_after_hashing)
  have dk: "distinct (map fst (fst acc))"
    using inv unfolding hash_inv_def by blast
  have "mset gs = mset (fst acc)"
    unfolding gs_def using assms(2) dk unfolding range_permutes_def
    by (intro mset_range_map) simp_all
  then have "mset (map fst gs) = mset (map fst (fst acc))"
    by (metis mset_map)
  then have dg: "distinct (map fst gs)"
    using dk mset_eq_imp_distinct_iff by blast
  have mem: "\<forall>g\<in>set gs. \<forall>p\<in>set (snd g). fileHash e fs0 p = Inr (fst g)"
  proof (intro ballI)
    fix g p assume g: "g \<in> set gs" and p: "p \<in> set (snd g)"
    have "(fst g, snd g) \<in> set (range_map (rangeHashes e) (fst acc))"
      using g by (simp add: gs_def)
    from group_members_hashed(1) [OF inv this] p
    show "fileHash e fs0 p = Inr (fst g)"
      by (simp add: digest_group_def)
  qed
  have same: "\<forall>g\<in>set gs. \<forall>p\<in>set (snd g). fs s0 p = fs0 p"
    by (simp add: s0_def)
  have ag: "after_groups e fl fs0 input = process_groups e fl gs s0"
    by (simp add: after_groups_def gs_def acc_def tr4_def s0_def)
  obtain new B where new: "trace (process_groups e fl gs s0) = trace s0 @ new"
    "\<forall>bs. foldr report_step new ([], bs) = ([], B @ bs)"
    "\<forall>b\<in>set B. sorted_wrt (ordered_before e fs0) (listed b)"
    using report_process_groups [OF assms(1) dg mem same] by blast
  have tr: "trace (after_groups e fl fs0 input) = tr4 @ new"
    using new(1) ag by (simp add: s0_def)
  have "\<exists>post. events (main e fl fs0 input) = tr4 @ new @ post
          \<and> foldr report_step post ([], []) = ([], [])"
  proof (cases "panicked (after_groups e fl fs0 input)")
    case True
    then show ?thesis using False tr by (intro exI [of _ "[]"]) (simp add: main_stages)
  next
    case np: False
    show ?thesis
      using False np tr
      by (intro exI [of _ "[PrintSummary (fst (snd (after_hashing e fl fs0)))
                   (duplicateCount (after_groups e fl fs0 input))
                   (sint (totalSaved (after_groups e fl fs0 input)) sdiv 1048576)]
              @ (if dryRun fl then [PrintDryRunBanner] else [])"])
         (simp add: main_stages)
  qed
  then obtain post where post: "events (main e fl fs0 input) = tr4 @ new @ post"
    "foldr report_step post ([], []) = ([], [])"
    by blast
  have "group_reports (events (main e fl fs0 input)) = B"
    unfolding post(1) group_reports_def
    using new(2) by (simp add: post(2) foldr_report_early [OF early])
  then show ?thesis using new(3) by simp
qed

lemma VolumeName_unix_empty: "VolumeName_unix p = []"
  by (simp add: VolumeName_unix_def VolumeName_lib_def volumeNameLen_unix_def FromSlash_def)

lemma on_unix_simps [simp]:
  "VolumeName (on_unix e) p = []"
  "sort_Slice (on_unix e) = sort_Slice e"
  "rangeSizes (on_unix e) = rangeSizes e"
  "rangeHashes (on_unix e) = rangeHashes e"
  by (simp_all add: on_unix_def VolumeName_unix_empty)

text \<open>
  C10. The volume key of the comparison is \<^verbatim>\<open>filepath.VolumeName\<close> of the path string,
  and the file system has no part in it: when two volume names differ the comparison is
  decided by them, whatever the file system holds. A path without a volume prefix has the
  empty volume name, so on a platform other than Windows every path has. There the
  comparison function is the comparison of the two modification times and of nothing else
  (it panics when \<^verbatim>\<open>os.Stat\<close> fails for either path), and every run of \<^verbatim>\<open>main\<close> prints
  the paths of each group, keeper first, in the order of their modification times. In a
  run every member of a group can be read by \<^verbatim>\<open>os.Stat\<close> when the group is sorted: it
  was hashed, and only members of groups handled before have been removed.
\<close>

theorem unix_groups_ordered_by_mtime:
  assumes "sort_Slice_contract (sort_Slice e)" and "range_permutes e"
  shows "(\<forall>fsys p q. VolumeName e p \<noteq> VolumeName e q \<longrightarrow>
            lessFunc e fsys p q = Some (VolumeName e p < VolumeName e q))
       \<and> (\<forall>volumeNameLen Separator p. volumeNameLen p = 0 \<longrightarrow>
            VolumeName_lib volumeNameLen Separator p = [])
       \<and> (\<forall>p. VolumeName (on_unix e) p = [])
       \<and> (\<forall>fsys p q. lessFunc (on_unix e) fsys p q =
            (if fsys p = None \<or> fsys q = None then None
             else Some (mtime fsys p < mtime fsys q)))
       \<and> (\<forall>b\<in>set (group_reports (events (main (on_unix e) fl fs0 input))).
            sorted_wrt (\<lambda>p q. mtime fs0 p \<le> mtime fs0 q) (listed b))"
proof (intro conjI)
  show "\<forall>fsys p q. VolumeName e p \<noteq> VolumeName e q \<longrightarrow>
            lessFunc e fsys p q = Some (VolumeName e p < VolumeName e q)"
    by (simp add: lessFunc_def Let_def)
  show "\<forall>volumeNameLen Separator p. volumeNameLen p = 0 \<longrightarrow>
            VolumeName_lib volumeNameLen Separator p = []"
    by (simp add: VolumeName_lib_def FromSlash_def)
  show "\<forall>p. VolumeName (on_unix e) p = []" by simp
  show "\<forall>fsys p q. lessFunc (on_unix e) fsys p q =
            (if fsys p = None \<or> fsys q = None then None
             else Some (mtime fsys p < mtime fsys q))"
    by (auto simp: lessFunc_def Let_def Stat_def mtime_def split: option.splits)
  have c: "sort_Slice_contract (sort_Slice (on_unix e))" using assms(1) by simp
  have r: "range_permutes (on_unix e)" using assms(2) by (simp add: range_permutes_def)
  have o: "ordered_before (on_unix e) fs0 = (\<lambda>p q. mtime fs0 p \<le> mtime fs0 q)"
    by (simp add: ordered_before_def fun_eq_iff)
  show "\<forall>b\<in>set (group_reports (events (main (on_unix e) fl fs0 input))).
            sorted_wrt (\<lambda>p q. mtime fs0 p \<le> mtime fs0 q) (listed b)"
    using groups_printed_in_order [OF c r, of fl fs0 input] unfolding o .
qed

text \<open>
  The two pairs of \<^verbatim>\<open>/a\<close>, deleted without confirmation: \<^verbatim>\<open>/a/z\<close> is met before
  \<^verbatim>\<open>/a/w\<close> and is the newer one, so \<^verbatim>\<open>/a/w\<close> is printed first and kept.
\<close>

theorem unix_groups_ordered_by_mtime_witness:
  "sort_Slice_contract (sort_Slice env_W) \<and> range_permutes env_W
   \<and> hashed (events (main (on_unix env_W) flags_A fs_W []))
       = [''/a/x'', ''/a/y'', ''/a/z'', ''/a/w'']
   \<and> group_reports (events (main (on_unix env_W) flags_A fs_W []))
       = [[PrintGroup ''abc00000'', PrintKeeper ''/a/x'', PrintDuplicate ''/a/y'',
           PrintDeleted ''/a/y''],
          [PrintGroup ''abcd0000'', PrintKeeper ''/a/w'', PrintDuplicate ''/a/z'',
           PrintDeleted ''/a/z'']]
   \<and> map (mtime fs_W) [''/a/x'', ''/a/y'', ''/a/w'', ''/a/z''] = [10, 20, 5, 30]
   \<and> lessFunc (on_unix env_W) fs_W ''/a/w'' ''/a/z'' = Some True
   \<and> list_all (\<lambda>b. sorted_wrt (\<lambda>p q. mtime fs_W p \<le> mtime fs_W q) (listed b))
         (group_reports (events (main (on_unix env_W) flags_A fs_W [])))"
proof -
  have c: "sort_Slice_contract (sort_Slice env_W)"
    by (simp add: env_W_def env_A_def insertionSort_contract)
  have p: "range_permutes env_W"
    by (simp add: range_permutes_def env_W_def env_A_def)
  have h: "hashed (events (main (on_unix env_W) flags_A fs_W []))
       = [''/a/x'', ''/a/y'', ''/a/z'', ''/a/w'']"
    by (simp add: run_defs on_unix_def VolumeName_unix_empty env_W_def env_A_def flags_A_def
        fs_W_def walk_W_def)
  have g: "group_reports (events (main (on_unix env_W) flags_A fs_W []))
       = [[PrintGroup ''abc00000'', PrintKeeper ''/a/x'', PrintDuplicate ''/a/y'',
           PrintDeleted ''/a/y''],
          [PrintGroup ''abcd0000'', PrintKeeper ''/a/w'', PrintDuplicate ''/a/z'',
           PrintDeleted ''/a/z'']]"
    by (simp add: group_reports_def run_defs on_unix_def VolumeName_unix_empty env_W_def
        env_A_def flags_A_def fs_W_def walk_W_def)
  have m: "map (mtime fs_W) [''/a/x'', ''/a/y'', ''/a/w'', ''/a/z''] = [10, 20, 5, 30]"
    by (simp add: mtime_def fs_W_def)
  note t = unix_groups_ordered_by_mtime [OF c p, of flags_A fs_W "[]"]
  have l: "lessFunc (on_unix env_W) fs_W ''/a/w'' ''/a/z'' = Some True"
    using t m by (simp add: fs_W_def)
  have "list_all (\<lambda>b. sorted_wrt (\<lambda>p q. mtime fs_W p \<le> mtime fs_W q) (listed b))
         (group_reports (events (main (on_unix env_W) flags_A fs_W [])))"
    using t by (simp add: list_all_iff)
  then show ?thesis using c p h g m l by simp
qed

section \<open>Thirteen files tied on both keys but one\<close>

lemmas Slice_defs =
  Slice_def pdqsort_func.simps insertionSort_func_def insertion_outer.simps
  insertion_inner.simps choosePivot_func_def median_func_def order2_func_def
  partialInsertionSort_func_def partialInsertionSort_loop.simps run_up.simps
  partition_func_def skip_less.simps skip_not_less.simps Less_def Swap_def bits_Len.simps

lemma Slice_short:
  "length x \<le> 12 \<Longrightarrow> Slice Next lt x = insertionSort_func lt x 0 (int (length x))"
  by (simp add: Slice_def pdqsort_func.simps Let_def)

lemma sort_G:
  "sort_Slice (env_G Next) (lessFunc (env_G Next) fs_G) files_G
   = Some [''/g/g'', ''/g/c'', ''/g/d'', ''/g/e'', ''/g/f'', ''/g/a'', ''/g/h'', ''/g/i'',
      ''/g/j'', ''/g/k'', ''/g/l'', ''/g/m'', ''/g/b'']"
  by (simp add: Slice_defs lessFunc_def Stat_def Let_def env_G_def env_A_def fs_G_def abc_from_def
      files_G_def)

lemma scan_G: "scan (env_G Next) flags_G = ([(3, files_G)], [])"
  by (simp add: scan_def env_G_def env_A_def flags_G_def walk_G_def reg_def dir_def files_G_def)

lemma hash_G:
  "after_hashing (env_G Next) flags_G fs_G
     = ([(''abc0000000000000000000000000000000000000000000000000000000000000'', files_G)], 13,
        map CallFileHash files_G)"
  unfolding after_hashing_def scan_G
  by (simp add: hash_all_def range_map_def fileHash_def env_G_def env_A_def flags_G_def
      fs_G_def abc_from_def files_G_def demo_digest_def)

lemma groups_G:
  "trace (after_groups (env_G Next) flags_G fs_G [])
     = map CallFileHash files_G
       @ PrintGroup ''abc00000'' # PrintKeeper ''/g/g''
       # map PrintDuplicate [''/g/c'', ''/g/d'', ''/g/e'', ''/g/f'', ''/g/a'', ''/g/h'', ''/g/i'',
           ''/g/j'', ''/g/k'', ''/g/l'', ''/g/m'', ''/g/b'']"
  "\<not> panicked (after_groups (env_G Next) flags_G fs_G [])"
proof -
  let ?s0 = "\<lparr>fs = fs_G, stdin = [], trace = map CallFileHash files_G,
              duplicateCount = 0, totalSaved = 0, panicked = False\<rparr>"
  let ?s1 = "emit (PrintKeeper ''/g/g'') (emit (PrintGroup ''abc00000'') ?s0)"
  let ?ds = "[''/g/c'', ''/g/d'', ''/g/e'', ''/g/f'', ''/g/a'', ''/g/h'', ''/g/i'',
           ''/g/j'', ''/g/k'', ''/g/l'', ''/g/m'', ''/g/b'']"
  have d: "dryRun flags_G" by (simp add: flags_G_def)
  have np: "\<not> panicked ?s1" by (simp add: emit_def)
  have pr: "\<forall>d\<in>set ?ds. fs ?s1 d \<noteq> None"
    by (simp add: emit_def fs_G_def)
  have l: "\<not> length (snd (''abc0000000000000000000000000000000000000000000000000000000000000'', files_G)) < 2"
    "\<not> length (fst (''abc0000000000000000000000000000000000000000000000000000000000000'', files_G)) < 8"
    by (simp_all add: files_G_def)
  have g: "process_group (env_G Next) flags_G
        (''abc0000000000000000000000000000000000000000000000000000000000000'', files_G) ?s0
      = process_duplicates flags_G ?ds ?s1"
    unfolding process_group_def using l by (simp add: sort_G)
  have r: "range_map (rangeHashes (env_G Next))
        [(''abc0000000000000000000000000000000000000000000000000000000000000'', files_G)]
      = [(''abc0000000000000000000000000000000000000000000000000000000000000'', files_G)]"
    by (simp add: range_map_def env_G_def env_A_def)
  note t = dry_duplicates_trace [OF d np pr]
  have a: "after_groups (env_G Next) flags_G fs_G [] = process_duplicates flags_G ?ds ?s1"
    unfolding after_groups_def hash_G using t by (simp add: r g Let_def)
  show "trace (after_groups (env_G Next) flags_G fs_G [])
     = map CallFileHash files_G
       @ PrintGroup ''abc00000'' # PrintKeeper ''/g/g'' # map PrintDuplicate ?ds"
    unfolding a using t by (simp add: emit_def)
  show "\<not> panicked (after_groups (env_G Next) flags_G fs_G [])"
    unfolding a using t by simp
qed

text \<open>
  C3 as stated fails. Thirteen files with the same bytes on one volume are met in the
  order \<^verbatim>\<open>/g/a\<close> to \<^verbatim>\<open>/g/m\<close>; all have the same modification time but \<^verbatim>\<open>/g/b\<close>, which
  is newer. \<^verbatim>\<open>sort.Slice\<close> sorts more than 12 elements by quicksort: the pivot \<^verbatim>\<open>/g/g\<close> is
  swapped to the front, nothing is less than it, and the rest is sorted by insertion. The
  keeper is \<^verbatim>\<open>/g/g\<close>, the seventh file met, although \<^verbatim>\<open>/g/a\<close> is tied with it on both keys
  and was met first; \<^verbatim>\<open>/g/a\<close> is reported as a duplicate after \<^verbatim>\<open>/g/c\<close> to \<^verbatim>\<open>/g/f\<close>,
  which are tied with it and were met after it.
\<close>

theorem seventh_of_thirteen_tied_is_keeper:
  "\<forall>Next.
     sort_Slice (env_G Next) = Slice Next
     \<and> hashed (events (main (env_G Next) flags_G fs_G [])) = files_G
     \<and> lessFunc (env_G Next) fs_G ''/g/a'' ''/g/g'' = Some False
     \<and> lessFunc (env_G Next) fs_G ''/g/g'' ''/g/a'' = Some False
     \<and> keepers (events (main (env_G Next) flags_G fs_G [])) = [''/g/g'']
     \<and> reported (events (main (env_G Next) flags_G fs_G []))
       = [''/g/c'', ''/g/d'', ''/g/e'', ''/g/f'', ''/g/a'', ''/g/h'', ''/g/i'', ''/g/j'',
          ''/g/k'', ''/g/l'', ''/g/m'', ''/g/b'']"
proof
  fix Next
  have p: "partitions flags_G \<noteq> []" and d: "dryRun flags_G"
    by (simp_all add: flags_G_def)
  have ev: "events (main (env_G Next) flags_G fs_G [])
      = trace (after_groups (env_G Next) flags_G fs_G [])
        @ [PrintSummary 13 (duplicateCount (after_groups (env_G Next) flags_G fs_G []))
             (sint (totalSaved (after_groups (env_G Next) flags_G fs_G [])) sdiv 1048576),
           PrintDryRunBanner]"
    using p d groups_G(2) [of Next] by (simp add: main_stages hash_G)
  have l: "lessFunc (env_G Next) fs_G ''/g/a'' ''/g/g'' = Some False"
    "lessFunc (env_G Next) fs_G ''/g/g'' ''/g/a'' = Some False"
    by (simp_all add: lessFunc_def Stat_def env_G_def env_A_def fs_G_def abc_from_def)
  have sl: "sort_Slice (env_G Next) = Slice Next" by (simp add: env_G_def)
  show "sort_Slice (env_G Next) = Slice Next
     \<and> hashed (events (main (env_G Next) flags_G fs_G [])) = files_G
     \<and> lessFunc (env_G Next) fs_G ''/g/a'' ''/g/g'' = Some False
     \<and> lessFunc (env_G Next) fs_G ''/g/g'' ''/g/a'' = Some False
     \<and> keepers (events (main (env_G Next) flags_G fs_G [])) = [''/g/g'']
     \<and> reported (events (main (env_G Next) flags_G fs_G []))
       = [''/g/c'', ''/g/d'', ''/g/e'', ''/g/f'', ''/g/a'', ''/g/h'', ''/g/i'', ''/g/j'',
          ''/g/k'', ''/g/l'', ''/g/m'', ''/g/b'']"
    unfolding ev groups_G(1) using l sl by (simp add: files_G_def)
qed

end
